theory Spec2Isabelle
  imports Main "HOL-Library.Word" "HOL-Library.Multiset"
begin

unbundle bit_operations_syntax

section \<open>Values shared by the whole module\<close>

text \<open>
  A shallow embedding of \<^verbatim>\<open>src/src/ply-sequence.ts\<close> (the file
  \<^verbatim>\<open>src/unnamed/part_000\<close> is an earlier revision of the same module, without the
  selector and the progress display; line numbers are those of the current revision).
  A \<^verbatim>\<open>Uint8Array\<close> is a list of 8-bit words, a \<^verbatim>\<open>File\<close> is its name with an opaque
  identifier of its contents, a \<^verbatim>\<open>Splat\<close> object is its identity (a number), and a
  thrown JavaScript value is either an \<^verbatim>\<open>Error\<close> with a message or some other value
  without a \<^verbatim>\<open>message\<close> property.
\<close>

type_synonym u8 = "8 word"

type_synonym splat = nat

datatype jsfile = File (name: string) (contents: nat)

datatype js_error = JsError string | JsThrown string

section \<open>Selector descriptors and \<^verbatim>\<open>applySelectorMask\<close>\<close>

text \<open>
  \<^verbatim>\<open>SelectorDescriptor\<close> is the tagged union of lines 20-30; the three-component
  vectors are triples.  Coordinates are integers here: no function of this module
  computes with them, they are only copied.
\<close>

type_synonym vec3 = "int \<times> int \<times> int"

datatype SelectorDescriptor = Box vec3 vec3 | Sphere vec3 int

text \<open>The argument built for \<^verbatim>\<open>scene.dataProcessor.intersect\<close> (lines 66-84).\<close>

datatype intersect_options =
    BoxOptions int int int int int int
  | SphereOptions int int int int

fun selector_options :: "SelectorDescriptor \<Rightarrow> intersect_options" where
  "selector_options (Box (cx, cy, cz) (sx, sy, sz)) = BoxOptions cx cy cz sx sy sz"
| "selector_options (Sphere (cx, cy, cz) r) = SphereOptions cx cy cz r"

text \<open>
  The loop of lines 89-95.  \<^verbatim>\<open>State.deleted\<close> comes from \<^verbatim>\<open>./splat-state\<close>, which is
  not part of the sources, so the constant is the parameter \<open>deleted\<close> (its low byte:
  the array stores bytes).  \<^verbatim>\<open>state[idx] |= d\<close> is \<open>OR\<close>, \<^verbatim>\<open>state[idx] &= ~d\<close> is
  \<open>AND (NOT d)\<close>.  The index stays below both lengths, so every read is in range.
  The source's \<^verbatim>\<open>mask\<close> is \<open>msk\<close> here (the word library has a constant of that
  name).
\<close>

function mask_loop :: "u8 \<Rightarrow> u8 list \<Rightarrow> nat \<Rightarrow> nat \<Rightarrow> u8 list \<Rightarrow> u8 list" where
  "mask_loop deleted msk limit idx state =
     (if idx < limit
      then mask_loop deleted msk limit (idx + 1)
             (state[idx := (if msk ! idx \<noteq> 255
                            then (state ! idx) OR deleted
                            else (state ! idx) AND (NOT deleted))])
      else state)"
  by pat_completeness auto
termination
  by (relation "measure (\<lambda>(deleted, msk, limit, idx, state). limit - idx)") auto

declare mask_loop.simps [simp del]

text \<open>
  \<^verbatim>\<open>applySelectorMask\<close> (lines 61-96).  The scene contributes only its intersection
  oracle, so a scene is the function \<open>intersect\<close>; a missing scene, state array or
  selector is \<open>None\<close>.  The result is the state array after the call (\<open>None\<close> when
  there was none to begin with).
\<close>

type_synonym scene_oracle = "intersect_options \<Rightarrow> splat \<Rightarrow> u8 list"

definition applySelectorMask ::
  "u8 \<Rightarrow> scene_oracle option \<Rightarrow> splat \<Rightarrow> u8 list option \<Rightarrow> SelectorDescriptor option
     \<Rightarrow> u8 list option" where
  "applySelectorMask deleted scene splat state selector =
     (case (scene, state, selector) of
        (Some intersect, Some st, Some sel) \<Rightarrow>
          (if length st = 0 then Some st
           else
             let msk = intersect (selector_options sel) splat;
                 limit = min (length st) (length msk)
             in Some (mask_loop deleted msk limit 0 st))
      | _ \<Rightarrow> state)"

section \<open>The frame registry: \<^verbatim>\<open>setFrames\<close>\<close>

text \<open>
  The regular expression of line 107, \<^verbatim>\<open>/(.*?)(\d+)(?:\.compressed)?\.ply$/\<close>, as the
  backtracking matcher JavaScript runs it.  Names are byte strings: \<^verbatim>\<open>\d\<close> is an ASCII
  digit, \<^verbatim>\<open>.\<close> is any character but a line terminator, \<^verbatim>\<open>toLowerCase\<close> maps the
  ASCII capitals.
\<close>

definition is_digit :: "char \<Rightarrow> bool" where
  "is_digit c = (48 \<le> (of_char c :: nat) \<and> (of_char c :: nat) \<le> 57)"

definition is_line_terminator :: "char \<Rightarrow> bool" where
  "is_line_terminator c = (c = CHR 0x0A \<or> c = CHR 0x0D)"

definition toLowerCase_char :: "char \<Rightarrow> char" where
  "toLowerCase_char c =
     (if 65 \<le> (of_char c :: nat) \<and> (of_char c :: nat) \<le> 90
      then char_of ((of_char c :: nat) + 32) else c)"

definition toLowerCase :: "string \<Rightarrow> string" where
  "toLowerCase s = map toLowerCase_char s"

text \<open>\<^verbatim>\<open>(?:\.compressed)?\.ply$\<close>: the rest of the name is one of two literals.\<close>

definition suffix_matches :: "string \<Rightarrow> bool" where
  "suffix_matches s = (s = ''.compressed.ply'' \<or> s = ''.ply'')"

text \<open>
  \<^verbatim>\<open>(\d+)\<close> is greedy: it takes every digit at the current position and gives them
  back one at a time (never all of them) until the rest of the pattern matches.
\<close>

fun digits_backtrack :: "string \<Rightarrow> nat \<Rightarrow> string option" where
  "digits_backtrack s 0 = None"
| "digits_backtrack s (Suc k) =
     (if suffix_matches (drop (Suc k) s) then Some (take (Suc k) s)
      else digits_backtrack s k)"

definition digits_then_suffix :: "string \<Rightarrow> string option" where
  "digits_then_suffix s = digits_backtrack s (length (takeWhile is_digit s))"

text \<open>\<^verbatim>\<open>(.*?)\<close> is lazy: it tries the rest of the pattern before taking one more character.\<close>

fun lazy_prefix :: "string \<Rightarrow> string option" where
  "lazy_prefix [] = digits_then_suffix []"
| "lazy_prefix (c # cs) =
     (case digits_then_suffix (c # cs) of
        Some g \<Rightarrow> Some g
      | None \<Rightarrow> if is_line_terminator c then None else lazy_prefix cs)"

text \<open>
  \<^verbatim>\<open>name.match(regex)?.[2]\<close>: the pattern is tried at every start index from the left;
  the result is the second group of the first match, \<open>None\<close> when nothing matches.
\<close>

fun regex_group2 :: "string \<Rightarrow> string option" where
  "regex_group2 [] = lazy_prefix []"
| "regex_group2 (c # cs) =
     (case lazy_prefix (c # cs) of
        Some g \<Rightarrow> Some g
      | None \<Rightarrow> regex_group2 cs)"

text \<open>
  \<^verbatim>\<open>parseInt(s, 10)\<close> on a string that starts with digits: the value of the leading
  digits, \<open>None\<close> for \<^verbatim>\<open>NaN\<close>.  JavaScript numbers are doubles; the model keeps the
  exact integer, which is the same number below \<open>2^53\<close>.
\<close>

definition digit_value :: "char \<Rightarrow> int" where
  "digit_value c = int (of_char c) - 48"

definition parseInt10 :: "string \<Rightarrow> int option" where
  "parseInt10 s =
     (let ds = takeWhile is_digit s
      in if ds = [] then None else Some (foldl (\<lambda>n c. 10 * n + digit_value c) 0 ds))"

text \<open>
  \<^verbatim>\<open>sorter\<close> (lines 110-114).  A string is truthy when it is not empty; a \<^verbatim>\<open>NaN\<close>
  difference is read by \<^verbatim>\<open>sort\<close> as \<open>0\<close>.
\<close>

definition sorter :: "jsfile \<Rightarrow> jsfile \<Rightarrow> int" where
  "sorter a b =
     (let avalue = regex_group2 (toLowerCase (name a));
          bvalue = regex_group2 (toLowerCase (name b))
      in case (avalue, bvalue) of
           (Some av, Some bv) \<Rightarrow>
             (if av \<noteq> [] \<and> bv \<noteq> []
              then (case (parseInt10 av, parseInt10 bv) of
                      (Some x, Some y) \<Rightarrow> x - y
                    | _ \<Rightarrow> 0)
              else 0)
         | _ \<Rightarrow> 0)"

text \<open>
  \<^verbatim>\<open>Array.prototype.sort\<close> is the engine's: ECMAScript asks for a stable sort, and
  leaves the order to the engine when the comparison is not a consistent order.  It is
  modelled by the stable insertion sort that walks the array from the left and moves
  each element towards the front past the elements that compare greater.  The sorted
  front of the array is kept reversed while the loop runs.
\<close>

fun insert_from_right :: "('a \<Rightarrow> 'a \<Rightarrow> int) \<Rightarrow> 'a \<Rightarrow> 'a list \<Rightarrow> 'a list" where
  "insert_from_right cmp e [] = [e]"
| "insert_from_right cmp e (y # ys) =
     (if cmp y e > 0 then y # insert_from_right cmp e ys else e # y # ys)"

definition array_sort :: "('a \<Rightarrow> 'a \<Rightarrow> int) \<Rightarrow> 'a list \<Rightarrow> 'a list" where
  "array_sort cmp xs = rev (foldl (\<lambda>front e. insert_from_right cmp e front) [] xs)"

section \<open>The state of the module\<close>

text \<open>
  Promises: what an awaited collaborator answers.
\<close>

datatype 'a outcome = Resolves 'a | Rejects js_error

text \<open>
  A call of the asynchronous \<^verbatim>\<open>setFrame\<close> is a task: it is suspended at one of its three
  \<^verbatim>\<open>await\<close>s (with the frame it was called for), or it has returned, or it has thrown.
\<close>

datatype task =
    AwaitPopup int
  | AwaitImport int
  | AwaitRender int splat
  | Resolved
  | Rejected js_error

text \<open>User-visible text: a key given to \<^verbatim>\<open>localize\<close>, or a literal.\<close>

datatype label = Localize string | Literal string

datatype popup = Popup (ptype: string) (header: label) (message: label)

datatype transform = Transform vec3 "int \<times> int \<times> int \<times> int" vec3

text \<open>
  What the module does to its collaborators, in order.  \<open>Import f file\<close> is the call
  of the import made for frame \<open>f\<close>; \<open>OnUpdated p\<close> is \<^verbatim>\<open>firstRender\<close> subscribing to
  the sorter of \<open>p\<close>, and \<open>Updated p\<close> the arrival of its first \<^verbatim>\<open>updated\<close> event;
  \<open>Destroy p\<close> is \<^verbatim>\<open>p.destroy()\<close>.  The export's actions carry the frame index they
  belong to and, for an awaited call, whether it resolved; \<open>MakeWorldBoundDirty i p\<close>
  closes the placement of the transient splat \<open>p\<close> in the scene (lines 251-255).
\<close>

datatype action =
    Fire_timeline_frames nat
  | ShowPopup popup
  | Fire_scene_clear
  | Import int jsfile
  | OnUpdated splat
  | Updated splat
  | Destroy splat
  | ConsoleWarn string
  | ConsoleError js_error
  | Fire_progressStart label
  | Fire_progressUpdate int nat
  | Fire_progressEnd
  | AssetLoad nat jsfile bool
  | MakeWorldBoundDirty nat splat
  | GetFileHandle nat string bool
  | CreateWritable nat bool
  | SerializePly nat splat "u8 list option" bool
  | WriterClose nat bool

text \<open>The debug elements of a scene that \<^verbatim>\<open>getActiveSelector\<close> looks at.\<close>

datatype element =
    BoxShape vec3 int int int
  | SphereShape vec3 int
  | OtherElement

record scene =
  debugElements :: "element list"
  intersect :: scene_oracle

text \<open>
  The closure variables of \<^verbatim>\<open>registerPlySequenceEvents\<close> (lines 99-103), the objects
  they point to, and the trace.  \<^verbatim>\<open>File[]\<close> arrays live in a heap (\<open>arrays\<close>, with
  \<open>next_array\<close> the next free address) because \<^verbatim>\<open>setFrames\<close> copies its argument and
  sorts the copy in place.  A \<^verbatim>\<open>Splat\<close> object has a \<^verbatim>\<open>state\<close> array in its
  \<^verbatim>\<open>splatData\<close> (\<open>None\<close> when \<^verbatim>\<open>getProp\<close> is undefined), a \<^verbatim>\<open>scene\<close> field and a
  placement.
\<close>

record state =
  arrays :: "nat \<Rightarrow> jsfile list"
  next_array :: nat
  sequenceFiles :: nat
  sequenceSplat :: "splat option"
  sequenceFrame :: int
  sequenceLoading :: bool
  nextFrame :: int
  tasks :: "task list"
  splat_state :: "splat \<Rightarrow> u8 list option"
  splat_scene :: "splat \<Rightarrow> scene option"
  splat_transform :: "splat \<Rightarrow> transform"
  trace :: "action list"

definition init :: state where
  "init = \<lparr> arrays = (\<lambda>_. []), next_array = 1, sequenceFiles = 0,
            sequenceSplat = None, sequenceFrame = -1, sequenceLoading = False,
            nextFrame = -1, tasks = [],
            splat_state = (\<lambda>_. None), splat_scene = (\<lambda>_. None),
            splat_transform = (\<lambda>_. Transform (0, 0, 0) (0, 0, 0, 1) (1, 1, 1)),
            trace = [] \<rparr>"

definition emit :: "action \<Rightarrow> state \<Rightarrow> state" where
  "emit a st = st\<lparr>trace := trace st @ [a]\<rparr>"

text \<open>The array \<^verbatim>\<open>sequenceFiles\<close> points to.\<close>

definition the_files :: "state \<Rightarrow> jsfile list" where
  "the_files st = arrays st (sequenceFiles st)"

text \<open>
  \<^verbatim>\<open>setFrames\<close> (lines 105-119).  \<open>files\<close> is the address of the caller's array;
  \<^verbatim>\<open>files.slice()\<close> allocates the copy, \<^verbatim>\<open>sort\<close> rewrites the copy.
\<close>

definition setFrames :: "nat \<Rightarrow> state \<Rightarrow> state" where
  "setFrames files st =
     (let copy = next_array st;
          st1 = st\<lparr>arrays := (arrays st)(copy := arrays st files),
                   next_array := Suc copy,
                   sequenceFiles := copy\<rparr>;
          st2 = st1\<lparr>arrays := (arrays st1)(sequenceFiles st1 :=
                     array_sort sorter (arrays st1 (sequenceFiles st1)))\<rparr>
      in emit (Fire_timeline_frames (length (the_files st2))) st2)"

section \<open>The frame controller: \<^verbatim>\<open>setFrame\<close>\<close>

text \<open>
  \<^verbatim>\<open>setFrame\<close> (lines 130-190) is asynchronous: it runs until an \<^verbatim>\<open>await\<close>, and goes on
  when the awaited promise settles.  Each piece between two \<^verbatim>\<open>await\<close>s is one function,
  from the state to what the call is doing next and the new state.  The frame is an
  integer (the timeline's frame numbers).
\<close>

definition reset_popup :: popup where
  "reset_popup = Popup ''yesno'' (Literal ''RESET SCENE'')
     (Literal ''You have unsaved changes. Are you sure you want to reset the scene?'')"

text \<open>
  Lines 160-166: raise the flag, read the file, call the import.  \<^verbatim>\<open>sequenceFiles[frame]\<close>
  is \<^verbatim>\<open>undefined\<close> out of range, and reading its \<^verbatim>\<open>name\<close> throws.
\<close>

definition begin_load :: "int \<Rightarrow> state \<Rightarrow> task \<times> state" where
  "begin_load frame st =
     (let st1 = st\<lparr>sequenceLoading := True\<rparr>
      in if 0 \<le> frame \<and> frame < int (length (the_files st1))
         then (AwaitImport frame, emit (Import frame (the_files st1 ! nat frame)) st1)
         else (Rejected (JsError ''TypeError: file is undefined''), st1))"

text \<open>
  Lines 131-150, up to the first \<^verbatim>\<open>await\<close>.  \<open>dirty\<close> is what
  \<^verbatim>\<open>events.invoke('scene.dirty')\<close> answers; it is only asked when the three guards
  have let the call through.
\<close>

definition setFrame :: "int \<Rightarrow> bool \<Rightarrow> state \<Rightarrow> task \<times> state" where
  "setFrame frame dirty st =
     (if frame < 0 \<or> frame \<ge> int (length (the_files st)) then (Resolved, st)
      else if sequenceLoading st then (Resolved, st\<lparr>nextFrame := frame\<rparr>)
      else if frame = sequenceFrame st then (Resolved, st)
      else if dirty then (AwaitPopup frame, emit (ShowPopup reset_popup) st)
      else begin_load frame st)"

text \<open>Lines 152-166: the popup has answered with \<open>action\<close>.\<close>

definition after_popup :: "int \<Rightarrow> string \<Rightarrow> state \<Rightarrow> task \<times> state" where
  "after_popup frame action st =
     (if action \<noteq> ''yes'' then (Resolved, st)
      else begin_load frame ((emit Fire_scene_clear st)\<lparr>sequenceSplat := None\<rparr>))"

text \<open>
  Lines 169-174: the import has resolved with \<open>newSplat\<close>; \<^verbatim>\<open>firstRender(newSplat[0])\<close>
  subscribes to the sorter of the first element and throws when there is none.
\<close>

definition after_import :: "int \<Rightarrow> splat list \<Rightarrow> state \<Rightarrow> task \<times> state" where
  "after_import frame newSplat st =
     (case newSplat of
        [] \<Rightarrow> (Rejected (JsError ''TypeError: newSplat[0] is undefined''), st)
      | s # _ \<Rightarrow> (AwaitRender frame s, emit (OnUpdated s) st))"

text \<open>
  A call that is not awaited (line 188) becomes a task of its own.
\<close>

definition spawn :: "int \<Rightarrow> bool \<Rightarrow> state \<Rightarrow> state" where
  "spawn frame dirty st =
     (case setFrame frame dirty st of (t, st') \<Rightarrow> st'\<lparr>tasks := tasks st' @ [t]\<rparr>)"

text \<open>
  Lines 176-189: the first render has happened.  \<open>dirty\<close> is the answer the chained call
  gets from \<^verbatim>\<open>scene.dirty\<close>, should it ask.
\<close>

definition after_render :: "int \<Rightarrow> splat \<Rightarrow> bool \<Rightarrow> state \<Rightarrow> task \<times> state" where
  "after_render frame s dirty st =
     (let st1 = (case sequenceSplat st of Some old \<Rightarrow> emit (Destroy old) st | None \<Rightarrow> st);
          st2 = st1\<lparr>sequenceFrame := frame, sequenceSplat := Some s, sequenceLoading := False\<rparr>
      in if nextFrame st2 \<noteq> -1
         then (Resolved, spawn (nextFrame st2) dirty (st2\<lparr>nextFrame := -1\<rparr>))
         else (Resolved, st2))"

text \<open>
  What happens to the module, one event at a time: the two events it listens to (lines
  192-198), and the settling of a promise a task waits for.  An event for a task that is
  not waiting for it changes nothing.  The array of \<^verbatim>\<open>plysequence.setFrames\<close> is the
  caller's: it is put at a fresh address before \<^verbatim>\<open>setFrames\<close> runs.
\<close>

datatype input =
    SetFrames "jsfile list"
  | TimelineFrame int bool
  | PopupResolves nat string
  | ImportResolves nat "splat list"
  | PromiseRejects nat js_error
  | SorterUpdated nat bool

definition resume :: "nat \<Rightarrow> task \<times> state \<Rightarrow> state" where
  "resume tid r = (case r of (t, st) \<Rightarrow> st\<lparr>tasks := (tasks st)[tid := t]\<rparr>)"

definition task_at :: "state \<Rightarrow> nat \<Rightarrow> task" where
  "task_at st tid = (if tid < length (tasks st) then tasks st ! tid else Resolved)"

fun step :: "input \<Rightarrow> state \<Rightarrow> state" where
  "step (SetFrames fs) st =
     (let a = next_array st
      in setFrames a (st\<lparr>arrays := (arrays st)(a := fs), next_array := Suc a\<rparr>))"
| "step (TimelineFrame frame dirty) st = spawn frame dirty st"
| "step (PopupResolves tid action) st =
     (case task_at st tid of
        AwaitPopup frame \<Rightarrow> resume tid (after_popup frame action st)
      | _ \<Rightarrow> st)"
| "step (ImportResolves tid newSplat) st =
     (case task_at st tid of
        AwaitImport frame \<Rightarrow> resume tid (after_import frame newSplat st)
      | _ \<Rightarrow> st)"
| "step (PromiseRejects tid e) st =
     (case task_at st tid of
        AwaitPopup frame \<Rightarrow> resume tid (Rejected e, st)
      | AwaitImport frame \<Rightarrow> resume tid (Rejected e, st)
      | _ \<Rightarrow> st)"
| "step (SorterUpdated tid dirty) st =
     (case task_at st tid of
        AwaitRender frame s \<Rightarrow> resume tid (after_render frame s dirty (emit (Updated s) st))
      | _ \<Rightarrow> st)"

definition run :: "input list \<Rightarrow> state \<Rightarrow> state" where
  "run inputs st = foldl (\<lambda>s i. step i s) st inputs"

section \<open>The export: \<^verbatim>\<open>getActiveSelector\<close> and the \<^verbatim>\<open>plysequence.export\<close> handler\<close>

fun is_box :: "element \<Rightarrow> bool" where
  "is_box (BoxShape _ _ _ _) = True"
| "is_box _ = False"

fun is_sphere :: "element \<Rightarrow> bool" where
  "is_sphere (SphereShape _ _) = True"
| "is_sphere _ = False"

text \<open>\<^verbatim>\<open>getActiveSelector\<close> (lines 32-59): the first box, else the first sphere.\<close>

definition getActiveSelector :: "scene option \<Rightarrow> SelectorDescriptor option" where
  "getActiveSelector sc =
     (case sc of
        None \<Rightarrow> None
      | Some s \<Rightarrow>
          (case List.find is_box (debugElements s) of
             Some (BoxShape pos lenX lenY lenZ) \<Rightarrow> Some (Box pos (lenX, lenY, lenZ))
           | _ \<Rightarrow>
             (case List.find is_sphere (debugElements s) of
                Some (SphereShape pos radius) \<Rightarrow> Some (Sphere pos radius)
              | _ \<Rightarrow> None)))"

text \<open>
  What the collaborators of the export answer: per frame, the asset loader (the new
  \<^verbatim>\<open>Splat\<close> and the \<^verbatim>\<open>state\<close> array of its data), the directory handle, the file
  handle, the serializer and the writer's \<^verbatim>\<open>close\<close>; the two popups; and the constant
  \<^verbatim>\<open>State.deleted\<close>.
\<close>

record frame_io =
  load :: "(splat \<times> u8 list option) outcome"
  getFileHandle :: "unit outcome"
  createWritable :: "unit outcome"
  serializePly :: "unit outcome"
  writer_close :: "unit outcome"

record export_env =
  io :: "nat \<Rightarrow> frame_io"
  popup_info :: "unit outcome"
  popup_error :: "unit outcome"
  deleted :: u8

fun resolved :: "'a outcome \<Rightarrow> bool" where
  "resolved (Resolves _) = True"
| "resolved (Rejects _) = False"

text \<open>
  Lines 263-268: the new content of \<^verbatim>\<open>newState\<close>.  \<^verbatim>\<open>newState.set(oldState)\<close> copies
  an array of the same length over it.  \<^verbatim>\<open>newState.length\<close> throws when the new splat
  has no state array.
\<close>

definition propagate_mask ::
  "u8 \<Rightarrow> scene \<Rightarrow> SelectorDescriptor option \<Rightarrow> splat \<Rightarrow> u8 list option \<Rightarrow> u8 list option
     \<Rightarrow> js_error + u8 list option" where
  "propagate_mask del sc activeSelector splat oldState newState =
     (if activeSelector \<noteq> None
      then Inr (applySelectorMask del (Some (intersect sc)) splat newState activeSelector)
      else (case oldState of
              None \<Rightarrow> Inr newState
            | Some old \<Rightarrow>
                (case newState of
                   None \<Rightarrow> Inl (JsError ''TypeError: newState is undefined'')
                 | Some new \<Rightarrow>
                     if length old = length new then Inr (Some old) else Inr (Some new))))"

text \<open>
  Lines 273-284: the output file of one frame.  A rejected \<^verbatim>\<open>await\<close> leaves with the
  error; the \<^verbatim>\<open>finally\<close> of lines 281-284 runs after the serializer either way, and an
  error of \<^verbatim>\<open>close\<close> replaces the serializer's.
\<close>

definition write_frame ::
  "export_env \<Rightarrow> nat \<Rightarrow> jsfile \<Rightarrow> splat \<Rightarrow> state \<Rightarrow> js_error option \<times> state" where
  "write_frame env i file splat st =
     (case getFileHandle (io env i) of
        Rejects e \<Rightarrow> (Some e, emit (GetFileHandle i (name file) False) st)
      | Resolves _ \<Rightarrow>
          (let st5 = emit (GetFileHandle i (name file) True) st
           in (case createWritable (io env i) of
                 Rejects e \<Rightarrow> (Some e, emit (CreateWritable i False) st5)
               | Resolves _ \<Rightarrow>
                   (let st6 = emit (CreateWritable i True) st5;
                        written = serializePly (io env i);
                        st7 = emit (SerializePly i splat (splat_state st6 splat)
                                      (resolved written)) st6;
                        st8 = emit (Fire_progressUpdate (int i + 1)
                                      (length (the_files st7))) st7;
                        closed = writer_close (io env i);
                        st9 = emit (WriterClose i (resolved closed)) st8
                    in (case closed of
                          Rejects e \<Rightarrow> (Some e, st9)
                        | Resolves _ \<Rightarrow>
                            (case written of
                               Rejects e \<Rightarrow> (Some e, st9)
                             | Resolves _ \<Rightarrow> (None, st9)))))))"

text \<open>
  One turn of the loop (lines 233-284): load, read the two state arrays, place the new
  splat in the scene, carry the mask over, write.
\<close>

definition export_frame ::
  "export_env \<Rightarrow> scene \<Rightarrow> SelectorDescriptor option \<Rightarrow> transform \<Rightarrow> nat \<Rightarrow> state
     \<Rightarrow> js_error option \<times> state" where
  "export_frame env sc activeSelector ref i st =
     (let file = the_files st ! i
      in (case load (io env i) of
            Rejects e \<Rightarrow> (Some e, emit (AssetLoad i file False) st)
          | Resolves (splat, loaded) \<Rightarrow>
              (let st1 = (emit (AssetLoad i file True) st)
                           \<lparr>splat_state := (splat_state st)(splat := loaded)\<rparr>
               in (case sequenceSplat st1 of
                     None \<Rightarrow> (Some (JsError ''TypeError: sequenceSplat is null''), st1)
                   | Some live \<Rightarrow>
                       (let oldState = splat_state st1 live;
                            newState = splat_state st1 splat;
                            st2 = st1\<lparr>splat_scene := (splat_scene st1)(splat := Some sc),
                                     splat_transform := (splat_transform st1)(splat := ref)\<rparr>;
                            st3 = emit (MakeWorldBoundDirty i splat) st2
                        in (case propagate_mask (deleted env) sc activeSelector splat
                                   oldState newState of
                              Inl e \<Rightarrow> (Some e, st3)
                            | Inr newState' \<Rightarrow>
                                write_frame env i file splat
                                  (st3\<lparr>splat_state := (splat_state st3)(splat := newState')\<rparr>)))))))"

lemma export_frame_the_files:
  "export_frame env sc activeSelector ref i st = (r, st') \<Longrightarrow> the_files st' = the_files st"
  by (auto simp: export_frame_def write_frame_def Let_def emit_def the_files_def
           split: outcome.splits option.splits sum.splits prod.splits)

text \<open>The loop of line 232; the length of \<^verbatim>\<open>sequenceFiles\<close> is read at every turn.\<close>

function export_loop ::
  "export_env \<Rightarrow> scene \<Rightarrow> SelectorDescriptor option \<Rightarrow> transform \<Rightarrow> nat \<Rightarrow> state
     \<Rightarrow> js_error option \<times> state" where
  "export_loop env sc activeSelector ref i st =
     (if i < length (the_files st)
      then (case export_frame env sc activeSelector ref i st of
              (Some e, st') \<Rightarrow> (Some e, st')
            | (None, st') \<Rightarrow> export_loop env sc activeSelector ref (i + 1) st')
      else (None, st))"
  by pat_completeness auto
termination
  apply (relation "measure (\<lambda>(env, sc, activeSelector, ref, i, st). length (the_files st) - i)")
   apply simp
  apply (auto dest!: sym [where t = "export_frame _ _ _ _ _ _"] dest!: export_frame_the_files)
  done

declare export_loop.simps [simp del]

definition error_text :: "js_error \<Rightarrow> string" where
  "error_text e = (case e of JsError m \<Rightarrow> m | JsThrown v \<Rightarrow> v)"

definition success_popup :: popup where
  "success_popup = Popup ''info'' (Localize ''export.succeeded'')
     (Localize ''export.sequence-success-message'')"

definition failure_popup :: "js_error \<Rightarrow> popup" where
  "failure_popup e = Popup ''error'' (Localize ''export.failed'')
     (Literal ([CHR 0x27] @ error_text e @ [CHR 0x27]))"

text \<open>The \<^verbatim>\<open>try\<close> block (lines 218-291).\<close>

definition export_try ::
  "export_env \<Rightarrow> scene \<Rightarrow> SelectorDescriptor option \<Rightarrow> splat \<Rightarrow> state
     \<Rightarrow> js_error option \<times> state" where
  "export_try env sc activeSelector live st =
     (let ref = splat_transform st live;
          st1 = emit (Fire_progressUpdate 0 (length (the_files st))) st
      in case export_loop env sc activeSelector ref 0 st1 of
           (Some e, st2) \<Rightarrow> (Some e, st2)
         | (None, st2) \<Rightarrow>
             (let st3 = emit (ShowPopup success_popup) st2
              in case popup_info env of
                   Rejects e \<Rightarrow> (Some e, st3)
                 | Resolves _ \<Rightarrow> (None, st3)))"

text \<open>The \<^verbatim>\<open>catch\<close> block (lines 292-298).\<close>

definition export_catch :: "export_env \<Rightarrow> js_error \<Rightarrow> state \<Rightarrow> js_error option \<times> state" where
  "export_catch env error st =
     (let st1 = emit (ConsoleError error) st;
          st2 = emit (ShowPopup (failure_popup error)) st1
      in case popup_error env of
           Rejects e \<Rightarrow> (Some e, st2)
         | Resolves _ \<Rightarrow> (None, st2))"

text \<open>
  The handler (lines 201-302): the error the returned promise rejects with, if any, and
  the state it leaves.  It runs here without any other event in between.
\<close>

definition plysequence_export :: "export_env \<Rightarrow> state \<Rightarrow> js_error option \<times> state" where
  "plysequence_export env st =
     (if length (the_files st) = 0
      then (None, emit (ConsoleWarn ''No sequence frames to export.'') st)
      else case sequenceSplat st of
             None \<Rightarrow> (None, emit (ConsoleWarn ''No sequence frames to export.'') st)
           | Some live \<Rightarrow>
               (case splat_scene st live of
                  None \<Rightarrow>
                    (None, emit (ConsoleWarn
                       ''Sequence splat is not attached to a scene. Aborting export.'') st)
                | Some sc \<Rightarrow>
                    (let activeSelector = getActiveSelector (Some sc);
                         st1 = emit (Fire_progressStart (Localize ''export.export-sequence'')) st
                     in case export_try env sc activeSelector live st1 of
                          (r, st2) \<Rightarrow>
                            (case (case r of
                                     None \<Rightarrow> (None, st2)
                                   | Some e \<Rightarrow> export_catch env e st2) of
                               (r', st3) \<Rightarrow> (r', emit Fire_progressEnd st3)))))"

section \<open>Reading a trace, and a run of the export to evaluate\<close>

text \<open>
  \<open>of_frame i a\<close>: the action \<open>a\<close> belongs to turn \<open>i\<close> of the export loop (the progress
  report of turn \<open>i\<close> carries \<open>i + 1\<close>).
\<close>

fun of_frame :: "nat \<Rightarrow> action \<Rightarrow> bool" where
  "of_frame i (AssetLoad j _ _) = (j = i)"
| "of_frame i (MakeWorldBoundDirty j _) = (j = i)"
| "of_frame i (GetFileHandle j _ _) = (j = i)"
| "of_frame i (CreateWritable j _) = (j = i)"
| "of_frame i (SerializePly j _ _ _) = (j = i)"
| "of_frame i (WriterClose j _) = (j = i)"
| "of_frame i (Fire_progressUpdate n _) = (n = int i + 1)"
| "of_frame i _ = False"

text \<open>
  A state in which frame 0 of five is shown, its splat attached to a scene without a
  selection shape, and collaborators that answer every call of the export but one: the
  serializer fails on frame 2.
\<close>

definition example_scene :: scene where
  "example_scene = \<lparr>debugElements = [], intersect = (\<lambda>_ _. [])\<rparr>"

definition example_state :: state where
  "example_state = init
     \<lparr>arrays := (\<lambda>_. [])(0 := [File ''frame0.ply'' 0, File ''frame1.ply'' 1,
                               File ''frame2.ply'' 2, File ''frame3.ply'' 3,
                               File ''frame4.ply'' 4]),
      sequenceSplat := Some 0,
      sequenceFrame := 0,
      splat_state := (\<lambda>_. None)(0 := Some [0, 1, 0, 2]),
      splat_scene := (\<lambda>_. None)(0 := Some example_scene)\<rparr>"

definition example_io :: "nat \<Rightarrow> frame_io" where
  "example_io i =
     \<lparr>load = Resolves (10 + i, Some [9, 9, 9, 9]),
      getFileHandle = Resolves (),
      createWritable = Resolves (),
      serializePly = (if i = 2 then Rejects (JsError ''disk full'') else Resolves ()),
      writer_close = Resolves ()\<rparr>"

definition example_env :: export_env where
  "example_env = \<lparr>io = example_io, popup_info = Resolves (), popup_error = Resolves (),
                   deleted = 1\<rparr>"

text \<open>
  The trailing integer \<^verbatim>\<open>sorter\<close> reads in the name of a file: the second group of the
  pattern, parsed; \<open>None\<close> when the name has no such number.
\<close>

definition frame_number :: "jsfile \<Rightarrow> int option" where
  "frame_number f =
     (case regex_group2 (toLowerCase (name f)) of
        None \<Rightarrow> None
      | Some g \<Rightarrow> if g \<noteq> [] then parseInt10 g else None)"





text \<open>The actions that start a load.\<close>

fun is_import :: "action \<Rightarrow> bool" where
  "is_import (Import _ _) = True"
| "is_import _ = False"

text \<open>The state while a load is in flight, as far as the requests and the completion read it.\<close>

definition in_flight :: "state \<Rightarrow> state \<Rightarrow> nat \<Rightarrow> task \<Rightarrow> action list \<Rightarrow> bool" where
  "in_flight st s tid t acts \<longleftrightarrow>
     sequenceLoading s \<and> trace s = trace st @ acts \<and> the_files s = the_files st \<and>
     sequenceSplat s = sequenceSplat st \<and> tid < length (tasks s) \<and> tasks s ! tid = t"

text \<open>
  Lists of files to register, and the state in which six files are registered and the
  load of frame 1 is in flight.
\<close>

definition two_files :: "jsfile list" where
  "two_files = [File ''a0.ply'' 0, File ''a1.ply'' 1]"

definition six_files :: "jsfile list" where
  "six_files = [File ''a0.ply'' 0, File ''a1.ply'' 1, File ''a2.ply'' 2, File ''a3.ply'' 3,
                File ''a4.ply'' 4, File ''a5.ply'' 5]"

definition loading_frame1 :: state where
  "loading_frame1 = run [SetFrames six_files, TimelineFrame 1 False] init"

text \<open>
  Who holds which splat: the splats the suspended calls wait to see rendered, the current
  splat, the splats destroyed so far, and the splats the import hands over (the first
  element of each answer).  \<open>fresh_imports\<close> says that no splat is held twice and that
  the imports still to come are new ones.  \<open>unchanged_owned\<close> is a step that moves no
  splat (it may drop the current one).
\<close>

fun waits :: "task \<Rightarrow> splat list" where
  "waits (AwaitRender _ q) = [q]"
| "waits _ = []"

definition waiting :: "state \<Rightarrow> splat list" where
  "waiting st = concat (map waits (tasks st))"

definition current :: "state \<Rightarrow> splat list" where
  "current st = (case sequenceSplat st of Some p \<Rightarrow> [p] | None \<Rightarrow> [])"

fun destroys :: "action \<Rightarrow> splat list" where
  "destroys (Destroy p) = [p]"
| "destroys _ = []"

definition destroyed :: "state \<Rightarrow> splat list" where
  "destroyed st = concat (map destroys (trace st))"

fun import_heads :: "input \<Rightarrow> splat list" where
  "import_heads (ImportResolves _ (q # _)) = [q]"
| "import_heads _ = []"

definition imported :: "input list \<Rightarrow> splat list" where
  "imported inputs = concat (map import_heads inputs)"

definition fresh_imports :: "state \<Rightarrow> splat list \<Rightarrow> bool" where
  "fresh_imports st future \<longleftrightarrow>
     distinct (waiting st @ current st @ destroyed st) \<and> distinct future \<and>
     set (waiting st @ current st @ destroyed st) \<inter> set future = {}"

definition unchanged_owned :: "state \<Rightarrow> state \<Rightarrow> bool" where
  "unchanged_owned st st' \<longleftrightarrow>
     waiting st' = waiting st \<and> destroyed st' = destroyed st \<and>
     (current st' = current st \<or> current st' = [])"

text \<open>The state in which two files are registered and frame 0 is shown.\<close>

definition showing_frame0 :: state where
  "showing_frame0 = run [SetFrames two_files, TimelineFrame 0 False,
                         ImportResolves 0 [7], SorterUpdated 0 False] init"

section \<open>Properties of the selector mask\<close>

lemma mask_loop_length: "length (mask_loop d msk limit idx state) = length state"
  by (induction d msk limit idx state rule: mask_loop.induct)
     (subst mask_loop.simps, simp)

lemma mask_loop_nth:
  "limit \<le> length state \<Longrightarrow> i < length state \<Longrightarrow>
   mask_loop d msk limit idx state ! i =
     (if idx \<le> i \<and> i < limit
      then (if msk ! i \<noteq> 255 then (state ! i) OR d else (state ! i) AND (NOT d))
      else state ! i)"
proof (induction d msk limit idx state rule: mask_loop.induct)
  case (1 deleted msk limit idx state)
  show ?case
  proof (cases "idx < limit")
    case False
    then show ?thesis by (subst mask_loop.simps) auto
  next
    case True
    let ?st = "state[idx := (if msk ! idx \<noteq> 255
                            then (state ! idx) OR deleted
                            else (state ! idx) AND (NOT deleted))]"
    have len: "limit \<le> length ?st" "i < length ?st"
      using "1.prems" by simp_all
    have step: "mask_loop deleted msk limit idx state = mask_loop deleted msk limit (idx + 1) ?st"
      using True by (subst mask_loop.simps) simp
    show ?thesis
      unfolding step "1.IH"[OF True len]
      using True "1.prems" by (auto simp: nth_list_update)
  qed
qed

lemma set_bit_and: "((x::u8) OR d) AND d = d"
  by (simp add: bit_eq_iff bit_and_iff bit_or_iff) 

lemma clear_bit_and: "((x::u8) AND NOT d) AND d = 0"
  by (auto simp add: bit_eq_iff bit_and_iff bit_not_iff) 

lemma set_bit_others: "((x::u8) OR d) AND NOT d = x AND NOT d"
  by (auto simp add: bit_eq_iff bit_and_iff bit_or_iff bit_not_iff) 

lemma clear_bit_others: "((x::u8) AND NOT d) AND NOT d = x AND NOT d"
  by (auto simp add: bit_eq_iff bit_and_iff bit_not_iff) 

text \<open>
  Claim C6.  In selector mode (a scene, a state array and a selector are given),
  \<^verbatim>\<open>applySelectorMask\<close> keeps the length of the state array; at every index below the
  shorter of the state array and the oracle's answer, the bits of \<^verbatim>\<open>State.deleted\<close> are
  all set when the oracle's byte is not 255 and all cleared when it is 255, and the
  other bits of the byte stay as they were; a byte at an index from the length of the
  oracle's answer on stays as it was.
\<close>

theorem applySelectorMask_selector_mode:
  "\<exists>st'. applySelectorMask d (Some oracle) p (Some st) (Some sel) = Some st' \<and>
         length st' = length st \<and>
         (\<forall>i < min (length st) (length (oracle (selector_options sel) p)).
            (oracle (selector_options sel) p ! i \<noteq> 255 \<longrightarrow> st' ! i AND d = d) \<and>
            (oracle (selector_options sel) p ! i = 255 \<longrightarrow> st' ! i AND d = 0) \<and>
            st' ! i AND NOT d = st ! i AND NOT d) \<and>
         (\<forall>i. length (oracle (selector_options sel) p) \<le> i \<and> i < length st \<longrightarrow> st' ! i = st ! i)"
proof (cases "length st = 0")
  case True
  then show ?thesis by (simp add: applySelectorMask_def)
next
  case False
  let ?m = "oracle (selector_options sel) p"
  let ?limit = "min (length st) (length ?m)"
  let ?st' = "mask_loop d ?m ?limit 0 st"
  have res: "applySelectorMask d (Some oracle) p (Some st) (Some sel) = Some ?st'"
    using False by (simp add: applySelectorMask_def Let_def)
  have len: "length ?st' = length st"
    by (rule mask_loop_length)
  have inside: "(?m ! i \<noteq> 255 \<longrightarrow> ?st' ! i AND d = d) \<and>
                (?m ! i = 255 \<longrightarrow> ?st' ! i AND d = 0) \<and>
                ?st' ! i AND NOT d = st ! i AND NOT d" if "i < ?limit" for i
    using that
    by (simp add: mask_loop_nth set_bit_and clear_bit_and set_bit_others clear_bit_others)
  have outside: "?st' ! i = st ! i" if "length ?m \<le> i \<and> i < length st" for i
    using that by (simp add: mask_loop_nth)
  show ?thesis
    using res len inside outside by blast
qed

theorem applySelectorMask_selector_mode_witness:
  "\<exists>st'. applySelectorMask 1 (Some (\<lambda>_ _. [255, 0, 255])) 0 (Some [7, 6, 1, 9])
            (Some (Sphere (0, 0, 0) 1)) = Some st' \<and>
         length st' = 4 \<and>
         st' ! 0 AND 1 = 0 \<and> st' ! 0 AND NOT 1 = 6 \<and>
         st' ! 1 AND 1 = 1 \<and> st' ! 1 AND NOT 1 = 6 \<and>
         st' ! 2 AND 1 = 0 \<and>
         st' ! 3 = 9"
proof -
  obtain st' where
    res: "applySelectorMask 1 (Some (\<lambda>_ _. [255, 0, 255])) 0 (Some [7, 6, 1, 9])
            (Some (Sphere (0, 0, 0) 1)) = Some st'"
    and len: "length st' = length [7, 6, 1, 9 :: u8]"
    and inside: "\<forall>i < min (length [7, 6, 1, 9 :: u8]) (length [255, 0, 255 :: u8]).
            ([255, 0, 255 :: u8] ! i \<noteq> 255 \<longrightarrow> st' ! i AND 1 = 1) \<and>
            ([255, 0, 255 :: u8] ! i = 255 \<longrightarrow> st' ! i AND 1 = 0) \<and>
            st' ! i AND NOT 1 = [7, 6, 1, 9] ! i AND NOT 1"
    and outside: "\<forall>i. length [255, 0, 255 :: u8] \<le> i \<and> i < length [7, 6, 1, 9 :: u8]
            \<longrightarrow> st' ! i = [7, 6, 1, 9] ! i"
    using applySelectorMask_selector_mode
      [of 1 "\<lambda>_ _. [255, 0, 255]" 0 "[7, 6, 1, 9]" "Sphere (0, 0, 0) 1"]
    by blast
  have i0: "st' ! 0 AND 1 = 0 \<and> st' ! 0 AND NOT 1 = 6"
    using inside [rule_format, of 0] by simp
  have i1: "st' ! 1 AND 1 = 1 \<and> st' ! 1 AND NOT 1 = 6"
    using inside [rule_format, of 1] by simp
  have i2: "st' ! 2 AND 1 = 0"
    using inside [rule_format, of 2] by simp
  have i3: "st' ! 3 = 9"
    using outside [rule_format, of 3] by simp
  show ?thesis
    using res len i0 i1 i2 i3 by simp
qed

section \<open>Properties of the export\<close>

lemma trace_emit [simp]: "trace (emit a st) = trace st @ [a]"
  and arrays_emit [simp]: "arrays (emit a st) = arrays st"
  and next_array_emit [simp]: "next_array (emit a st) = next_array st"
  and sequenceFiles_emit [simp]: "sequenceFiles (emit a st) = sequenceFiles st"
  and sequenceSplat_emit [simp]: "sequenceSplat (emit a st) = sequenceSplat st"
  and sequenceFrame_emit [simp]: "sequenceFrame (emit a st) = sequenceFrame st"
  and sequenceLoading_emit [simp]: "sequenceLoading (emit a st) = sequenceLoading st"
  and nextFrame_emit [simp]: "nextFrame (emit a st) = nextFrame st"
  and tasks_emit [simp]: "tasks (emit a st) = tasks st"
  and splat_state_emit [simp]: "splat_state (emit a st) = splat_state st"
  and splat_scene_emit [simp]: "splat_scene (emit a st) = splat_scene st"
  and splat_transform_emit [simp]: "splat_transform (emit a st) = splat_transform st"
  by (simp_all add: emit_def)

lemma the_files_emit [simp]: "the_files (emit a st) = the_files st"
  by (simp add: the_files_def)

lemma the_files_splat_upd [simp]:
  "the_files (st\<lparr>splat_state := f\<rparr>) = the_files st"
  "the_files (st\<lparr>splat_scene := g\<rparr>) = the_files st"
  "the_files (st\<lparr>splat_transform := h\<rparr>) = the_files st"
  by (simp_all add: the_files_def)

lemma write_frame_fields:
  assumes "write_frame env i file p st = (r, st')"
  shows "sequenceSplat st' = sequenceSplat st" "splat_state st' = splat_state st"
    "splat_scene st' = splat_scene st" "the_files st' = the_files st"
  using assms
  by (auto simp: write_frame_def Let_def split: outcome.splits)

lemma export_frame_sequenceSplat:
  assumes "export_frame env sc sel ref i st = (r, st')"
  shows "sequenceSplat st' = sequenceSplat st"
  using assms
  by (auto simp: export_frame_def Let_def 
           split: outcome.splits option.splits sum.splits prod.splits dest!: write_frame_fields(1))

lemma export_frame_splat_state_other:
  assumes "export_frame env sc sel ref i st = (r, st')"
    and "\<forall>p loaded. load (io env i) = Resolves (p, loaded) \<longrightarrow> p \<noteq> q"
  shows "splat_state st' q = splat_state st q"
  using assms
  by (auto simp: export_frame_def Let_def 
           split: outcome.splits option.splits sum.splits prod.splits dest!: write_frame_fields(2))

lemma export_loop_live_state:
  assumes "export_loop env sc sel ref i st = (r, st')"
    and "\<forall>i p loaded. load (io env i) = Resolves (p, loaded) \<longrightarrow> p \<noteq> q"
  shows "splat_state st' q = splat_state st q \<and> sequenceSplat st' = sequenceSplat st"
  using assms
proof (induction env sc sel ref i st arbitrary: r st' rule: export_loop.induct)
  case (1 env sc sel ref i st)
  show ?case
  proof (cases "i < length (the_files st)")
    case False
    with "1.prems"(1) show ?thesis
      by (subst (asm) export_loop.simps) simp
  next
    case True
    obtain r1 st1 where f: "export_frame env sc sel ref i st = (r1, st1)"
      by (cases "export_frame env sc sel ref i st")
    have keep: "splat_state st1 q = splat_state st q" "sequenceSplat st1 = sequenceSplat st"
      using export_frame_splat_state_other [OF f] export_frame_sequenceSplat [OF f] "1.prems"(2)
      by blast+
    show ?thesis
    proof (cases r1)
      case (Some e)
      with True f "1.prems"(1) have "st' = st1"
        by (subst (asm) export_loop.simps) simp
      with keep show ?thesis by simp
    next
      case None
      with True f "1.prems"(1) have "export_loop env sc sel ref (i + 1) st1 = (r, st')"
        by (subst (asm) export_loop.simps) simp
      from "1.IH" [OF True f [symmetric] None this "1.prems"(2)] keep
      show ?thesis by simp
    qed
  qed
qed

text \<open>
  Claim C9.  Whatever the collaborators answer, and whether the export ends normally or
  with an error, the state array of the live splat is after the run what it was before,
  and the live splat is still the current one: the export writes only to the state
  array of the splat the loader has just returned (a new object, never the live one).
\<close>

theorem export_keeps_live_state:
  assumes "sequenceSplat st = Some live"
    and "\<forall>i p loaded. load (io env i) = Resolves (p, loaded) \<longrightarrow> p \<noteq> live"
  shows "splat_state (snd (plysequence_export env st)) live = splat_state st live \<and>
         sequenceSplat (snd (plysequence_export env st)) = Some live"
proof (cases "length (the_files st) = 0")
  case True
  then show ?thesis using assms(1) by (simp add: plysequence_export_def)
next
  case False
  show ?thesis
  proof (cases "splat_scene st live")
    case None
    then show ?thesis using assms(1) False by (simp add: plysequence_export_def)
  next
    case (Some sc)
    let ?st1 = "emit (Fire_progressStart (Localize ''export.export-sequence'')) st"
    let ?st1' = "emit (Fire_progressUpdate 0 (length (the_files ?st1))) ?st1"
    obtain r st2 where l: "export_loop env sc (getActiveSelector (Some sc)) (splat_transform ?st1 live) 0 ?st1' = (r, st2)"
      by (cases "export_loop env sc (getActiveSelector (Some sc)) (splat_transform ?st1 live) 0 ?st1'")
    from export_loop_live_state [OF l assms(2)]
    have keep: "splat_state st2 live = splat_state st live" "sequenceSplat st2 = Some live"
      using assms(1) by simp_all
    show ?thesis
      using assms(1) False Some l keep
      by (auto simp: plysequence_export_def export_try_def export_catch_def Let_def
               split: option.splits outcome.splits prod.splits)
  qed
qed

theorem export_keeps_live_state_witness:
  "sequenceSplat example_state = Some 0 \<and>
   splat_state (snd (plysequence_export example_env example_state)) 0 = Some [0, 1, 0, 2]"
proof -
  have h: "sequenceSplat example_state = Some 0"
    "\<forall>i p loaded. load (io example_env i) = Resolves (p, loaded) \<longrightarrow> p \<noteq> 0"
    by (simp_all add: example_state_def example_env_def example_io_def init_def)
  have "splat_state example_state 0 = Some [0, 1, 0, 2]"
    by (simp add: example_state_def init_def)
  with export_keeps_live_state [OF h] h(1) show ?thesis by simp
qed


lemma write_frame_trace:
  assumes "write_frame env i file p st = (r, st')"
  shows "\<exists>acts. trace st' = trace st @ acts \<and> (\<forall>a\<in>set acts. of_frame i a)"
  using assms
  by (auto simp: write_frame_def Let_def split: outcome.splits)

lemma export_frame_trace:
  assumes "export_frame env sc sel ref i st = (r, st')"
  shows "\<exists>acts. trace st' = trace st @ acts \<and> (\<forall>a\<in>set acts. of_frame i a)"
proof (cases "load (io env i)")
  case (Rejects e)
  with assms show ?thesis by (auto simp: export_frame_def Let_def)
next
  case (Resolves x)
  obtain p loaded where x: "x = (p, loaded)" by (cases x)
  show ?thesis
  proof (cases "sequenceSplat st")
    case None
    with assms Resolves x show ?thesis by (auto simp: export_frame_def Let_def)
  next
    case (Some live)
    let ?st1 = "(emit (AssetLoad i (the_files st ! i) True) st)\<lparr>splat_state := (splat_state st)(p := loaded)\<rparr>"
    let ?st3 = "emit (MakeWorldBoundDirty i p)
                 (?st1\<lparr>splat_scene := (splat_scene ?st1)(p := Some sc),
                       splat_transform := (splat_transform ?st1)(p := ref)\<rparr>)"
    show ?thesis
    proof (cases "propagate_mask (deleted env) sc sel p (splat_state ?st1 live) (splat_state ?st1 p)")
      case (Inl e)
      with assms Resolves x Some show ?thesis
        by (auto simp: export_frame_def Let_def)
    next
      case (Inr ns)
      with assms Resolves x Some
      have w: "write_frame env i (the_files st ! i) p (?st3\<lparr>splat_state := (splat_state ?st3)(p := ns)\<rparr>) = (r, st')"
        by (simp add: export_frame_def Let_def)
      from write_frame_trace [OF w] show ?thesis by auto
    qed
  qed
qed








text \<open>
  Claim C7.  One turn of the export without a selector, the loader returning a new
  splat \<open>p\<close> whose state array is \<open>new\<close>: when the live splat has a state array of the
  same length, lines 263-268 give \<open>p\<close> that array, byte for byte; when the lengths
  differ, or the live splat has no state array, the state array of \<open>p\<close> stays what the
  loader made it.
\<close>

theorem export_frame_copy_mode:
  assumes "load (io env i) = Resolves (p, Some new)"
    and "sequenceSplat st = Some live" and "p \<noteq> live"
  shows "(\<forall>old. splat_state st live = Some old \<and> length old = length new \<longrightarrow>
            propagate_mask (deleted env) sc None p (Some old) (Some new) = Inr (Some old) \<and>
            splat_state (snd (export_frame env sc None ref i st)) p = Some old) \<and>
         (\<forall>old. splat_state st live = Some old \<and> length old \<noteq> length new \<longrightarrow>
            propagate_mask (deleted env) sc None p (Some old) (Some new) = Inr (Some new) \<and>
            splat_state (snd (export_frame env sc None ref i st)) p = Some new) \<and>
         (splat_state st live = None \<longrightarrow>
            propagate_mask (deleted env) sc None p None (Some new) = Inr (Some new) \<and>
            splat_state (snd (export_frame env sc None ref i st)) p = Some new)"
proof -
  have w: "splat_state (snd (write_frame env i f p s)) = splat_state s" for f s
    using write_frame_fields(2) [of env i f p s] by (cases "write_frame env i f p s") simp
  show ?thesis
    using assms
    by (auto simp: export_frame_def propagate_mask_def Let_def w)
qed

theorem export_frame_copy_mode_witness:
  "load (io example_env 1) = Resolves (11, Some [9, 9, 9, 9]) \<and>
   splat_state example_state 0 = Some [0, 1, 0, 2] \<and>
   splat_state (snd (export_frame example_env example_scene None
      (Transform (0, 0, 0) (0, 0, 0, 1) (1, 1, 1)) 1 example_state)) 11 = Some [0, 1, 0, 2]"
proof -
  have h: "load (io example_env 1) = Resolves (11, Some [9, 9, 9, 9])"
    "sequenceSplat example_state = Some 0" "(11::nat) \<noteq> 0"
    by (simp_all add: example_state_def example_env_def example_io_def init_def)
  have s: "splat_state example_state 0 = Some [0, 1, 0, 2]"
    by (simp add: example_state_def init_def)
  from export_frame_copy_mode [OF h, of example_scene "Transform (0, 0, 0) (0, 0, 0, 1) (1, 1, 1)"]
  have "splat_state example_state 0 = Some [0, 1, 0, 2] \<and> length [0, 1, 0, 2 :: u8] = length [9, 9, 9, 9 :: u8] \<longrightarrow>
        splat_state (snd (export_frame example_env example_scene None
      (Transform (0, 0, 0) (0, 0, 0, 1) (1, 1, 1)) 1 example_state)) 11 = Some [0, 1, 0, 2]"
    by blast
  with h(1) s show ?thesis by simp
qed







section \<open>Properties of the frame registry\<close>



lemma set_insert_from_right [simp]:
  "set (insert_from_right cmp e front) = insert e (set front)"
  by (induction front) auto

lemma mset_insert_from_right [simp]:
  "mset (insert_from_right cmp e front) = add_mset e (mset front)"
  by (induction front) auto

lemma mset_foldl_insert:
  "mset (foldl (\<lambda>front e. insert_from_right cmp e front) acc xs) = mset xs + mset acc"
  by (induction xs arbitrary: acc) auto

lemma mset_array_sort [simp]: "mset (array_sort cmp xs) = mset xs"
  by (simp add: array_sort_def mset_foldl_insert)

lemma length_array_sort [simp]: "length (array_sort cmp xs) = length xs"
  using mset_array_sort [of cmp xs] by (metis size_mset)










lemma digits_backtrack_digits:
  assumes "digits_backtrack s k = Some g" and "k \<le> length (takeWhile is_digit s)"
  shows "g \<noteq> [] \<and> (\<forall>c\<in>set g. is_digit c)"
  using assms
proof (induction k)
  case 0
  then show ?case by simp
next
  case (Suc k)
  show ?case
  proof (cases "suffix_matches (drop (Suc k) s)")
    case True
    with Suc.prems have g: "g = take (Suc k) s" by simp
    have "take (Suc k) s = take (Suc k) (takeWhile is_digit s @ dropWhile is_digit s)"
      by simp
    also have "\<dots> = take (Suc k) (takeWhile is_digit s)"
      using Suc.prems(2) by (simp del: takeWhile_dropWhile_id)
    finally have "take (Suc k) s = take (Suc k) (takeWhile is_digit s)" .
    then have "set g \<subseteq> set (takeWhile is_digit s)"
      using g by (metis set_take_subset)
    moreover have "g \<noteq> []"
      using g Suc.prems(2) by (cases s) simp_all
    ultimately show ?thesis
      using set_takeWhileD by fastforce
  next
    case False
    with Suc show ?thesis by simp
  qed
qed

lemma digits_then_suffix_digits:
  "digits_then_suffix s = Some g \<Longrightarrow> g \<noteq> [] \<and> (\<forall>c\<in>set g. is_digit c)"
  unfolding digits_then_suffix_def
  using digits_backtrack_digits [of s "length (takeWhile is_digit s)" g] by simp

lemma lazy_prefix_digits: "lazy_prefix s = Some g \<Longrightarrow> g \<noteq> [] \<and> (\<forall>c\<in>set g. is_digit c)"
proof (induction s)
  case Nil
  then have "digits_then_suffix [] = Some g" by simp
  then show ?case by (rule digits_then_suffix_digits)
next
  case (Cons c cs)
  show ?case
  proof (cases "digits_then_suffix (c # cs)")
    case (Some g')
    with Cons.prems have "digits_then_suffix (c # cs) = Some g" by simp
    then show ?thesis by (rule digits_then_suffix_digits)
  next
    case None
    with Cons.prems have "lazy_prefix cs = Some g"
      by (simp split: if_splits)
    then show ?thesis by (rule Cons.IH)
  qed
qed

lemma regex_group2_digits: "regex_group2 s = Some g \<Longrightarrow> g \<noteq> [] \<and> (\<forall>c\<in>set g. is_digit c)"
proof (induction s)
  case Nil
  then have "lazy_prefix [] = Some g" by simp
  then show ?case by (rule lazy_prefix_digits)
next
  case (Cons c cs)
  show ?case
  proof (cases "lazy_prefix (c # cs)")
    case (Some g')
    with Cons.prems have "lazy_prefix (c # cs) = Some g" by simp
    then show ?thesis by (rule lazy_prefix_digits)
  next
    case None
    with Cons.prems have "regex_group2 cs = Some g" by simp
    then show ?thesis by (rule Cons.IH)
  qed
qed

lemma parseInt10_digits: "g \<noteq> [] \<Longrightarrow> \<forall>c\<in>set g. is_digit c \<Longrightarrow> parseInt10 g \<noteq> None"
  by (cases g) (auto simp: parseInt10_def Let_def)

lemma frame_number_None_iff:
  "frame_number f = None \<longleftrightarrow> regex_group2 (toLowerCase (name f)) = None"
proof (cases "regex_group2 (toLowerCase (name f))")
  case None
  then show ?thesis by (simp add: frame_number_def)
next
  case (Some g)
  from regex_group2_digits [OF Some] have "g \<noteq> []" "parseInt10 g \<noteq> None"
    using parseInt10_digits by blast+
  with Some show ?thesis by (simp add: frame_number_def)
qed






section \<open>Properties of the frame controller\<close>

text \<open>
  Claim C1 does not hold of the code.  The import of frame 0 is rejected: the call has
  thrown, and the loading flag is still set.  The request for frame 1 that follows
  starts no load: the only import of the whole run is the one of frame 0.
\<close>

theorem rejected_import_leaves_loading_flag:
  "tasks (run [SetFrames two_files, TimelineFrame 0 False,
               PromiseRejects 0 (JsError ''load failed'')] init)
     = [Rejected (JsError ''load failed'')] \<and>
   sequenceLoading (run [SetFrames two_files, TimelineFrame 0 False,
               PromiseRejects 0 (JsError ''load failed'')] init) \<and>
   filter is_import (trace (run [SetFrames two_files, TimelineFrame 0 False,
               PromiseRejects 0 (JsError ''load failed''), TimelineFrame 1 False] init))
     = [Import 0 (File ''a0.ply'' 0)] \<and>
   tasks (run [SetFrames two_files, TimelineFrame 0 False,
               PromiseRejects 0 (JsError ''load failed''), TimelineFrame 1 False] init)
     = [Rejected (JsError ''load failed''), Resolved]"
  by code_simp

lemma step_request_while_loading:
  assumes "sequenceLoading st"
  shows "step (TimelineFrame x d) st =
           (if 0 \<le> x \<and> x < int (length (the_files st)) then st\<lparr>nextFrame := x\<rparr> else st)
             \<lparr>tasks := tasks st @ [Resolved]\<rparr>"
  using assms by (auto simp: spawn_def setFrame_def the_files_def)

lemma the_files_upd [simp]:
  "the_files (st\<lparr>nextFrame := n\<rparr>) = the_files st"
  "the_files (st\<lparr>tasks := ts\<rparr>) = the_files st"
  "the_files (st\<lparr>sequenceLoading := l\<rparr>) = the_files st"
  "the_files (st\<lparr>sequenceFrame := f\<rparr>) = the_files st"
  "the_files (st\<lparr>sequenceSplat := p\<rparr>) = the_files st"
  by (simp_all add: the_files_def)

lemma step_import_resolves:
  assumes "tid < length (tasks st)" and "tasks st ! tid = AwaitImport f"
  shows "step (ImportResolves tid (q # qs)) st =
           (emit (OnUpdated q) st)\<lparr>tasks := (tasks st)[tid := AwaitRender f q]\<rparr>"
  using assms by (simp add: task_at_def after_import_def resume_def)

lemma step_sorter_updated_chained:
  assumes "tid < length (tasks st)" and "tasks st ! tid = AwaitRender f q"
    and "0 \<le> c" and "c < int (length (the_files st))" and "c \<noteq> f" and "\<not> dirty"
    and "nextFrame st = c"
  shows "step (SorterUpdated tid dirty) st =
           st\<lparr>trace := trace st @ [Updated q] @
                   (case sequenceSplat st of Some old \<Rightarrow> [Destroy old] | None \<Rightarrow> []) @
                   [Import c (the_files st ! nat c)],
               sequenceFrame := f, sequenceSplat := Some q, sequenceLoading := True,
               nextFrame := -1,
               tasks := (tasks st)[tid := Resolved] @ [AwaitImport c]\<rparr>"
  using assms
  by (cases "sequenceSplat st")
     (simp_all add: task_at_def after_render_def resume_def spawn_def setFrame_def
        begin_load_def emit_def Let_def the_files_def list_update_append)

lemma request_while_loading_fields:
  assumes "sequenceLoading st"
  shows "sequenceLoading (step (TimelineFrame x d) st)"
    and "trace (step (TimelineFrame x d) st) = trace st"
    and "the_files (step (TimelineFrame x d) st) = the_files st"
    and "sequenceSplat (step (TimelineFrame x d) st) = sequenceSplat st"
    and "sequenceFrame (step (TimelineFrame x d) st) = sequenceFrame st"
    and "tasks (step (TimelineFrame x d) st) = tasks st @ [Resolved]"
    and "nextFrame (step (TimelineFrame x d) st) =
           (if 0 \<le> x \<and> x < int (length (the_files st)) then x else nextFrame st)"
  unfolding step_request_while_loading [OF assms] using assms by simp_all

lemma import_resolves_fields:
  assumes "tid < length (tasks st)" and "tasks st ! tid = AwaitImport f"
  shows "sequenceLoading (step (ImportResolves tid (q # qs)) st) = sequenceLoading st"
    and "trace (step (ImportResolves tid (q # qs)) st) = trace st @ [OnUpdated q]"
    and "the_files (step (ImportResolves tid (q # qs)) st) = the_files st"
    and "sequenceSplat (step (ImportResolves tid (q # qs)) st) = sequenceSplat st"
    and "sequenceFrame (step (ImportResolves tid (q # qs)) st) = sequenceFrame st"
    and "tasks (step (ImportResolves tid (q # qs)) st) = (tasks st)[tid := AwaitRender f q]"
    and "nextFrame (step (ImportResolves tid (q # qs)) st) = nextFrame st"
  unfolding step_import_resolves [OF assms] by simp_all

lemma in_flight_request:
  assumes "in_flight st s tid t acts"
  shows "in_flight st (step (TimelineFrame x d) s) tid t acts"
    and "nextFrame (step (TimelineFrame x d) s) =
           (if 0 \<le> x \<and> x < int (length (the_files st)) then x else nextFrame s)"
  using assms request_while_loading_fields [of s x d]
  by (simp_all add: in_flight_def nth_append del: step.simps)

lemma in_flight_import:
  assumes "in_flight st s tid (AwaitImport f) acts"
  shows "in_flight st (step (ImportResolves tid (q # qs)) s) tid (AwaitRender f q) (acts @ [OnUpdated q])"
    and "nextFrame (step (ImportResolves tid (q # qs)) s) = nextFrame s"
  using assms import_resolves_fields [of tid s f q qs]
  by (simp_all add: in_flight_def del: step.simps)

lemma in_flight_completion:
  assumes "in_flight st s tid (AwaitRender f q) acts"
    and "0 \<le> c" and "c < int (length (the_files st))" and "c \<noteq> f" and "\<not> dirty"
    and "nextFrame s = c"
  shows "trace (step (SorterUpdated tid dirty) s) =
           trace st @ acts @ [Updated q] @
             (case sequenceSplat st of Some old \<Rightarrow> [Destroy old] | None \<Rightarrow> []) @
             [Import c (the_files st ! nat c)]"
    and "nextFrame (step (SorterUpdated tid dirty) s) = -1"
    and "sequenceFrame (step (SorterUpdated tid dirty) s) = f"
    and "sequenceSplat (step (SorterUpdated tid dirty) s) = Some q"
    and "sequenceLoading (step (SorterUpdated tid dirty) s)"
    and "last (tasks (step (SorterUpdated tid dirty) s)) = AwaitImport c"
proof -
  have h: "tid < length (tasks s)" "tasks s ! tid = AwaitRender f q"
    "c < int (length (the_files s))"
    using assms(1,3) by (simp_all add: in_flight_def)
  note eq = step_sorter_updated_chained [OF h(1,2) assms(2) h(3) assms(4,5,6)]
  show "trace (step (SorterUpdated tid dirty) s) =
           trace st @ acts @ [Updated q] @
             (case sequenceSplat st of Some old \<Rightarrow> [Destroy old] | None \<Rightarrow> []) @
             [Import c (the_files st ! nat c)]"
    unfolding eq using assms(1) by (simp add: in_flight_def)
  show "nextFrame (step (SorterUpdated tid dirty) s) = -1"
    "sequenceFrame (step (SorterUpdated tid dirty) s) = f"
    "sequenceSplat (step (SorterUpdated tid dirty) s) = Some q"
    "sequenceLoading (step (SorterUpdated tid dirty) s)"
    "last (tasks (step (SorterUpdated tid dirty) s)) = AwaitImport c"
    unfolding eq by simp_all
qed

lemma run_append: "run (xs @ ys) st = run ys (run xs st)"
  by (simp add: run_def)

lemma run_Cons: "run (x # xs) st = run xs (step x st)"
  by (simp add: run_def)

lemma run_Nil: "run [] st = st"
  by (simp add: run_def)

lemma in_flight_requests:
  assumes "in_flight st s tid t acts"
  shows "in_flight st (run (map (\<lambda>(x, d). TimelineFrame x d) rs) s) tid t acts \<and>
         nextFrame (run (map (\<lambda>(x, d). TimelineFrame x d) rs) s) =
           foldl (\<lambda>n (x, d). if 0 \<le> x \<and> x < int (length (the_files st)) then x else n)
             (nextFrame s) rs"
  using assms
proof (induction rs arbitrary: s)
  case Nil
  then show ?case by (simp add: run_Nil)
next
  case (Cons r rs)
  obtain x d where r: "r = (x, d)" by (cases r)
  from in_flight_request [OF Cons.prems, of x d]
  have 1: "in_flight st (step (TimelineFrame x d) s) tid t acts"
    and 2: "nextFrame (step (TimelineFrame x d) s) =
           (if 0 \<le> x \<and> x < int (length (the_files st)) then x else nextFrame s)"
    by simp_all
  from Cons.IH [OF 1] 2 show ?case
    by (simp add: r run_Cons del: step.simps)
qed

text \<open>
  Claim C4, as amended.  A load of frame \<open>f0\<close> is in flight.  Three requests arrive, for
  \<open>a\<close>, \<open>b\<close> and \<open>c\<close>, the import resolving after \<open>n\<close> of them; \<open>c\<close> is a frame of the
  sequence other than \<open>f0\<close>, and the scene has no unsaved change when the load completes.
  Then the requests start nothing, the pending frame is \<open>c\<close> when the first render
  comes, and the completion starts exactly one import, the one of the file at index
  \<open>c\<close>, and empties the pending slot.  Any request made while a load is in flight does
  nothing but overwrite the pending slot, and only when its frame is in range.
\<close>

theorem coalescing_last_request_wins:
  assumes "sequenceLoading st" and "tid < length (tasks st)"
    and "tasks st ! tid = AwaitImport f0"
    and "0 \<le> c" and "c < int (length (the_files st))" and "c \<noteq> f0" and "\<not> dirty"
  shows "let requests = [TimelineFrame a da, TimelineFrame b db, TimelineFrame c dc];
             loaded = run (take n requests @ [ImportResolves tid (q # qs)] @ drop n requests) st;
             finished = step (SorterUpdated tid dirty) loaded
         in trace loaded = trace st @ [OnUpdated q] \<and>
            nextFrame loaded = c \<and>
            (\<exists>acts. trace finished = trace loaded @ acts \<and>
                    filter is_import acts = [Import c (the_files st ! nat c)]) \<and>
            nextFrame finished = -1 \<and>
            sequenceFrame finished = f0 \<and>
            sequenceSplat finished = Some q \<and>
            last (tasks finished) = AwaitImport c \<and>
            (\<forall>s x d. sequenceLoading s \<longrightarrow>
               trace (step (TimelineFrame x d) s) = trace s \<and>
               nextFrame (step (TimelineFrame x d) s) =
                 (if 0 \<le> x \<and> x < int (length (the_files s)) then x else nextFrame s))"
proof -
  let ?rs = "[(a, da), (b, db), (c, dc)]"
  let ?req = "\<lambda>(x, d). TimelineFrame x d"
  let ?pend = "\<lambda>n (x, d). if 0 \<le> x \<and> x < int (length (the_files st)) then x else n"
  have reqs: "[TimelineFrame a da, TimelineFrame b db, TimelineFrame c dc] = map ?req ?rs"
    by simp
  let ?s1 = "run (map ?req (take n ?rs)) st"
  let ?s2 = "step (ImportResolves tid (q # qs)) ?s1"
  let ?s3 = "run (map ?req (drop n ?rs)) ?s2"
  let ?s4 = "step (SorterUpdated tid dirty) ?s3"
  have loaded: "run (take n [TimelineFrame a da, TimelineFrame b db, TimelineFrame c dc]
                  @ [ImportResolves tid (q # qs)]
                  @ drop n [TimelineFrame a da, TimelineFrame b db, TimelineFrame c dc]) st = ?s3"
    unfolding reqs take_map drop_map run_append run_Cons run_Nil ..
  have f0: "in_flight st st tid (AwaitImport f0) []"
    using assms(1,2,3) by (simp add: in_flight_def)
  from in_flight_requests [OF f0, of "take n ?rs"]
  have f1: "in_flight st ?s1 tid (AwaitImport f0) []"
    and n1: "nextFrame ?s1 = foldl ?pend (nextFrame st) (take n ?rs)"
    by simp_all
  from in_flight_import [OF f1, of q qs]
  have f2: "in_flight st ?s2 tid (AwaitRender f0 q) [OnUpdated q]"
    and n2: "nextFrame ?s2 = nextFrame ?s1"
    by simp_all
  from in_flight_requests [OF f2, of "drop n ?rs"]
  have f3: "in_flight st ?s3 tid (AwaitRender f0 q) [OnUpdated q]"
    and n3: "nextFrame ?s3 = foldl ?pend (nextFrame ?s2) (drop n ?rs)"
    by simp_all
  have "nextFrame ?s3 = foldl ?pend (nextFrame st) (take n ?rs @ drop n ?rs)"
    unfolding n3 n2 n1 foldl_append ..
  then have n3': "nextFrame ?s3 = c"
    using assms(4,5) by simp
  have t3: "trace ?s3 = trace st @ [OnUpdated q]"
    using f3 by (simp add: in_flight_def)
  note fin = in_flight_completion [OF f3 assms(4,5,6,7) n3']
  have t4: "trace ?s4 = trace ?s3 @ ([Updated q] @
             (case sequenceSplat st of Some old \<Rightarrow> [Destroy old] | None \<Rightarrow> []) @
             [Import c (the_files st ! nat c)])"
    unfolding fin(1) t3 by simp
  have imp: "filter is_import ([Updated q] @
             (case sequenceSplat st of Some old \<Rightarrow> [Destroy old] | None \<Rightarrow> []) @
             [Import c (the_files st ! nat c)]) = [Import c (the_files st ! nat c)]"
    by (simp split: option.splits)
  have single: "\<forall>s x d. sequenceLoading s \<longrightarrow>
               trace (step (TimelineFrame x d) s) = trace s \<and>
               nextFrame (step (TimelineFrame x d) s) =
                 (if 0 \<le> x \<and> x < int (length (the_files s)) then x else nextFrame s)"
    using request_while_loading_fields(2,7) by blast
  have ex: "\<exists>acts. trace ?s4 = trace ?s3 @ acts \<and>
                    filter is_import acts = [Import c (the_files st ! nat c)]"
    using t4 imp by blast
  show ?thesis
    unfolding Let_def loaded
    using t3 n3' ex fin(2,3,4,6) single by (intro conjI)
qed

theorem coalescing_last_request_wins_witness:
  "sequenceLoading loading_frame1 \<and> tasks loading_frame1 ! 0 = AwaitImport 1 \<and>
   (3::int) < int (length (the_files loading_frame1)) \<and>
   nextFrame (run [TimelineFrame 2 False, TimelineFrame 5 False, TimelineFrame 3 False,
                   ImportResolves 0 [7]] loading_frame1) = 3 \<and>
   last (tasks (step (SorterUpdated 0 False)
     (run [TimelineFrame 2 False, TimelineFrame 5 False, TimelineFrame 3 False,
           ImportResolves 0 [7]] loading_frame1))) = AwaitImport 3 \<and>
   (\<exists>acts. trace (step (SorterUpdated 0 False)
              (run [TimelineFrame 2 False, TimelineFrame 5 False, TimelineFrame 3 False,
                    ImportResolves 0 [7]] loading_frame1)) =
             trace (run [TimelineFrame 2 False, TimelineFrame 5 False, TimelineFrame 3 False,
                    ImportResolves 0 [7]] loading_frame1) @ acts \<and>
           filter is_import acts = [Import 3 (File ''a3.ply'' 3)])"
proof -
  have h: "sequenceLoading loading_frame1" "0 < length (tasks loading_frame1)"
    "tasks loading_frame1 ! 0 = AwaitImport 1"
    "(0::int) \<le> 3" "(3::int) < int (length (the_files loading_frame1))" "(3::int) \<noteq> 1"
    "\<not> False"
    by code_simp+
  have f: "the_files loading_frame1 ! nat 3 = File ''a3.ply'' 3"
    by code_simp
  have r: "take 3 [TimelineFrame 2 False, TimelineFrame 5 False, TimelineFrame 3 False]
             @ [ImportResolves 0 [7]]
             @ drop 3 [TimelineFrame 2 False, TimelineFrame 5 False, TimelineFrame 3 False]
           = [TimelineFrame 2 False, TimelineFrame 5 False, TimelineFrame 3 False,
              ImportResolves 0 [7]]"
    by simp
  note t = coalescing_last_request_wins [OF h, where n = 3 and a = 2 and da = False
      and b = 5 and db = False and dc = False and q = 7 and qs = "[]", unfolded Let_def r f]
  note pending = t [THEN conjunct2, THEN conjunct1]
  note one_load = t [THEN conjunct2, THEN conjunct2, THEN conjunct1]
  note chained = t [THEN conjunct2, THEN conjunct2, THEN conjunct2, THEN conjunct2,
                    THEN conjunct2, THEN conjunct2, THEN conjunct1]
  show ?thesis
    by (intro conjI h(1) h(3) h(5) pending one_load chained)
qed

text \<open>
  Claim C4 as stated fails when the last request is for the frame that is being loaded:
  the load of frame 1 is in flight, frames 2, 5 and 1 are requested, the load completes,
  and no further load is started.  It fails as well when the last request is out of
  range (frames 2, 5 and 9 of six: the load that follows is the one of frame 5), and
  when the scene has unsaved changes at the completion and the user declines the reset
  (no further load).
\<close>

theorem coalescing_counterexample:
  "sequenceLoading loading_frame1 \<and> tasks loading_frame1 = [AwaitImport 1] \<and>
   filter is_import (trace loading_frame1) = [Import 1 (File ''a1.ply'' 1)] \<and>
   filter is_import (trace (run [TimelineFrame 2 False, TimelineFrame 5 False,
      TimelineFrame 1 False, ImportResolves 0 [7], SorterUpdated 0 False] loading_frame1))
     = [Import 1 (File ''a1.ply'' 1)] \<and>
   tasks (run [TimelineFrame 2 False, TimelineFrame 5 False,
      TimelineFrame 1 False, ImportResolves 0 [7], SorterUpdated 0 False] loading_frame1)
     = [Resolved, Resolved, Resolved, Resolved, Resolved] \<and>
   filter is_import (trace (run [TimelineFrame 2 False, TimelineFrame 5 False,
      TimelineFrame 9 False, ImportResolves 0 [7], SorterUpdated 0 False] loading_frame1))
     = [Import 1 (File ''a1.ply'' 1), Import 5 (File ''a5.ply'' 5)] \<and>
   filter is_import (trace (run [TimelineFrame 2 False, TimelineFrame 5 False,
      TimelineFrame 3 False, ImportResolves 0 [7], SorterUpdated 0 True,
      PopupResolves 4 ''no''] loading_frame1))
     = [Import 1 (File ''a1.ply'' 1)]"
  by code_simp

lemma begin_load_effect:
  assumes "begin_load f st = (t, st')"
  shows "waits t = []" "tasks st' = tasks st" "sequenceSplat st' = sequenceSplat st"
    "\<exists>acts. trace st' = trace st @ acts \<and> concat (map destroys acts) = [] \<and>
            Fire_scene_clear \<notin> set acts"
  using assms by (auto simp: begin_load_def Let_def split: if_splits)

lemma setFrame_outcomes:
  "setFrame f d st = (Resolved, st) \<or>
   setFrame f d st = (Resolved, st\<lparr>nextFrame := f\<rparr>) \<or>
   setFrame f d st = (AwaitPopup f, emit (ShowPopup reset_popup) st) \<or>
   setFrame f d st = begin_load f st"
  by (simp add: setFrame_def)

lemma setFrame_cases:
  obtains (ret) "setFrame f d st = (Resolved, st)"
    | (pend) "setFrame f d st = (Resolved, st\<lparr>nextFrame := f\<rparr>)"
    | (popup) "setFrame f d st = (AwaitPopup f, emit (ShowPopup reset_popup) st)"
    | (load) "setFrame f d st = begin_load f st"
  using setFrame_outcomes [of f d st] by blast

lemma setFrame_effect:
  assumes "setFrame f d st = (t, st')"
  shows "waits t = []" "tasks st' = tasks st" "sequenceSplat st' = sequenceSplat st"
    "\<exists>acts. trace st' = trace st @ acts \<and> concat (map destroys acts) = [] \<and>
            Fire_scene_clear \<notin> set acts"
proof -
  have "waits t = [] \<and> tasks st' = tasks st \<and> sequenceSplat st' = sequenceSplat st \<and>
    (\<exists>acts. trace st' = trace st @ acts \<and> concat (map destroys acts) = [] \<and>
            Fire_scene_clear \<notin> set acts)"
  proof (cases f d st rule: setFrame_cases)
    case ret
    with assms have "t = Resolved" "st' = st" by simp_all
    then show ?thesis by simp
  next
    case pend
    with assms have "t = Resolved" "st' = st\<lparr>nextFrame := f\<rparr>" by simp_all
    then show ?thesis by simp
  next
    case popup
    with assms have "t = AwaitPopup f" "st' = emit (ShowPopup reset_popup) st" by simp_all
    then show ?thesis by simp
  next
    case load
    with assms have "begin_load f st = (t, st')" by simp
    from begin_load_effect [OF this] show ?thesis by simp
  qed
  then show "waits t = []" "tasks st' = tasks st" "sequenceSplat st' = sequenceSplat st"
    "\<exists>acts. trace st' = trace st @ acts \<and> concat (map destroys acts) = [] \<and>
            Fire_scene_clear \<notin> set acts"
    by simp_all
qed

lemma spawn_effect:
  "\<exists>t acts. waits t = [] \<and> tasks (spawn f d st) = tasks st @ [t] \<and>
     sequenceSplat (spawn f d st) = sequenceSplat st \<and>
     trace (spawn f d st) = trace st @ acts \<and> concat (map destroys acts) = [] \<and>
     Fire_scene_clear \<notin> set acts"
proof -
  obtain t st' where s: "setFrame f d st = (t, st')" by (cases "setFrame f d st")
  from setFrame_effect [OF s] obtain acts where
    "waits t = []" "tasks st' = tasks st" "sequenceSplat st' = sequenceSplat st"
    "trace st' = trace st @ acts" "concat (map destroys acts) = []" "Fire_scene_clear \<notin> set acts"
    by (elim exE conjE) (rule that, assumption+)
  then show ?thesis
    using s by (intro exI [of _ t] exI [of _ acts]) (simp add: spawn_def)
qed

lemma waiting_update:
  assumes "tid < length ts"
  shows "\<exists>A B. concat (map waits ts) = A @ waits (ts ! tid) @ B \<and>
               (\<forall>t. concat (map waits (ts[tid := t])) = A @ waits t @ B)"
proof -
  let ?A = "concat (map waits (take tid ts))"
  let ?B = "concat (map waits (drop (Suc tid) ts))"
  have "ts = take tid ts @ ts ! tid # drop (Suc tid) ts"
    using assms by (rule id_take_nth_drop)
  then have "concat (map waits ts) = concat (map waits (take tid ts @ ts ! tid # drop (Suc tid) ts))"
    by simp
  then have 1: "concat (map waits ts) = ?A @ waits (ts ! tid) @ ?B"
    by simp
  have 2: "concat (map waits (ts[tid := t])) = ?A @ waits t @ ?B" for t
    using assms by (simp add: upd_conv_take_nth_drop)
  show ?thesis
    using 1 2 by blast
qed

lemma task_at_await:
  assumes "task_at st tid = t" and "t \<noteq> Resolved"
  shows "tid < length (tasks st)" "tasks st ! tid = t"
  using assms by (auto simp: task_at_def split: if_splits)

lemma destroyed_append:
  "trace st' = trace st @ acts \<Longrightarrow> destroyed st' = destroyed st @ concat (map destroys acts)"
  by (simp add: destroyed_def)

lemma waiting_same_update:
  assumes "tid < length (tasks st)" and "waits (tasks st ! tid) = []" and "waits t = []"
    and "tasks st' = (tasks st)[tid := t]"
  shows "waiting st' = waiting st"
proof -
  from waiting_update [OF assms(1)] obtain A B where
    "concat (map waits (tasks st)) = A @ waits (tasks st ! tid) @ B"
    "\<forall>t. concat (map waits ((tasks st)[tid := t])) = A @ waits t @ B"
    by (elim exE conjE) (rule that, assumption+)
  then show ?thesis
    using assms(2,3,4) by (simp add: waiting_def)
qed

lemma step_SetFrames_owned: "unchanged_owned st (step (SetFrames fs) st)"
  by (simp add: unchanged_owned_def waiting_def destroyed_def current_def setFrames_def Let_def)

lemma step_TimelineFrame_owned: "unchanged_owned st (step (TimelineFrame f d) st)"
proof -
  from spawn_effect [of f d st] obtain t acts where
    "waits t = []" "tasks (spawn f d st) = tasks st @ [t]"
    "sequenceSplat (spawn f d st) = sequenceSplat st"
    "trace (spawn f d st) = trace st @ acts" "concat (map destroys acts) = []"
    by (elim exE conjE) (rule that, assumption+)
  then show ?thesis
    by (simp add: unchanged_owned_def waiting_def destroyed_def current_def)
qed

lemma step_PopupResolves_owned: "unchanged_owned st (step (PopupResolves tid action) st)"
proof (cases "task_at st tid")
  case (AwaitPopup f)
  from task_at_await [OF AwaitPopup] have tid: "tid < length (tasks st)" "tasks st ! tid = AwaitPopup f"
    by simp_all
  show ?thesis
  proof (cases "action = ''yes''")
    case False
    with AwaitPopup have s: "step (PopupResolves tid action) st = st\<lparr>tasks := (tasks st)[tid := Resolved]\<rparr>"
      by (simp add: after_popup_def resume_def)
    have "waiting (st\<lparr>tasks := (tasks st)[tid := Resolved]\<rparr>) = waiting st"
      using tid by (intro waiting_same_update [of tid st Resolved]) simp_all
    then show ?thesis
      unfolding s by (simp add: unchanged_owned_def destroyed_def current_def)
  next
    case True
    let ?st1 = "(emit Fire_scene_clear st)\<lparr>sequenceSplat := None\<rparr>"
    obtain t st2 where b: "begin_load f ?st1 = (t, st2)" by (cases "begin_load f ?st1")
    from begin_load_effect [OF b] obtain acts where e:
      "waits t = []" "tasks st2 = tasks st" "sequenceSplat st2 = None"
      "trace st2 = trace st @ [Fire_scene_clear] @ acts" "concat (map destroys acts) = []"
      by (elim exE conjE) (rule that, simp_all)
    have s: "step (PopupResolves tid action) st = st2\<lparr>tasks := (tasks st2)[tid := t]\<rparr>"
      using AwaitPopup True b by (simp add: after_popup_def resume_def)
    have "waiting (st2\<lparr>tasks := (tasks st2)[tid := t]\<rparr>) = waiting st"
      using tid e(1,2) by (intro waiting_same_update [of tid st t]) simp_all
    then show ?thesis
      unfolding s using e(3,4,5) by (simp add: unchanged_owned_def destroyed_def current_def)
  qed
qed (simp_all add: unchanged_owned_def)

lemma step_PromiseRejects_owned: "unchanged_owned st (step (PromiseRejects tid e) st)"
proof (cases "task_at st tid")
  case (AwaitPopup f)
  from task_at_await [OF AwaitPopup] have tid: "tid < length (tasks st)" "tasks st ! tid = AwaitPopup f"
    by simp_all
  have s: "step (PromiseRejects tid e) st = st\<lparr>tasks := (tasks st)[tid := Rejected e]\<rparr>"
    using AwaitPopup by (simp add: resume_def)
  have "waiting (st\<lparr>tasks := (tasks st)[tid := Rejected e]\<rparr>) = waiting st"
    using tid by (intro waiting_same_update [of tid st "Rejected e"]) simp_all
  then show ?thesis
    unfolding s by (simp add: unchanged_owned_def destroyed_def current_def)
next
  case (AwaitImport f)
  from task_at_await [OF AwaitImport] have tid: "tid < length (tasks st)" "tasks st ! tid = AwaitImport f"
    by simp_all
  have s: "step (PromiseRejects tid e) st = st\<lparr>tasks := (tasks st)[tid := Rejected e]\<rparr>"
    using AwaitImport by (simp add: resume_def)
  have "waiting (st\<lparr>tasks := (tasks st)[tid := Rejected e]\<rparr>) = waiting st"
    using tid by (intro waiting_same_update [of tid st "Rejected e"]) simp_all
  then show ?thesis
    unfolding s by (simp add: unchanged_owned_def destroyed_def current_def)
qed (simp_all add: unchanged_owned_def)

lemma step_ImportResolves_owned:
  "unchanged_owned st (step (ImportResolves tid newSplat) st) \<or>
   (\<exists>A B q. import_heads (ImportResolves tid newSplat) = [q] \<and>
      waiting st = A @ B \<and> waiting (step (ImportResolves tid newSplat) st) = A @ [q] @ B \<and>
      current (step (ImportResolves tid newSplat) st) = current st \<and>
      destroyed (step (ImportResolves tid newSplat) st) = destroyed st)"
proof (cases "task_at st tid")
  case (AwaitImport f)
  from task_at_await [OF AwaitImport] have tid: "tid < length (tasks st)" "tasks st ! tid = AwaitImport f"
    by simp_all
  show ?thesis
  proof (cases newSplat)
    case Nil
    have s: "step (ImportResolves tid newSplat) st =
               st\<lparr>tasks := (tasks st)[tid := Rejected (JsError ''TypeError: newSplat[0] is undefined'')]\<rparr>"
      using AwaitImport Nil by (simp add: after_import_def resume_def)
    have "waiting (st\<lparr>tasks := (tasks st)[tid := Rejected (JsError ''TypeError: newSplat[0] is undefined'')]\<rparr>) = waiting st"
      using tid by (intro waiting_same_update [of tid st "Rejected (JsError ''TypeError: newSplat[0] is undefined'')"]) simp_all
    then show ?thesis
      unfolding s by (simp add: unchanged_owned_def destroyed_def current_def)
  next
    case (Cons q qs)
    have s: "step (ImportResolves tid newSplat) st =
               (emit (OnUpdated q) st)\<lparr>tasks := (tasks st)[tid := AwaitRender f q]\<rparr>"
      using AwaitImport Cons by (simp add: after_import_def resume_def)
    from waiting_update [OF tid(1)] obtain A B where
      w: "concat (map waits (tasks st)) = A @ waits (tasks st ! tid) @ B"
      "\<forall>t. concat (map waits ((tasks st)[tid := t])) = A @ waits t @ B"
      by (elim exE conjE) (rule that, assumption+)
    have 1: "waiting st = A @ B" using w(1) tid(2) by (simp add: waiting_def)
    have 2: "waiting (step (ImportResolves tid newSplat) st) = A @ [q] @ B"
      unfolding s using w(2) by (simp add: waiting_def)
    have 3: "current (step (ImportResolves tid newSplat) st) = current st"
      "destroyed (step (ImportResolves tid newSplat) st) = destroyed st"
      unfolding s by (simp_all add: current_def destroyed_def)
    have "import_heads (ImportResolves tid newSplat) = [q]" using Cons by simp
    with 1 2 3 show ?thesis by blast
  qed
qed (simp_all add: unchanged_owned_def)

lemma step_SorterUpdated_render:
  assumes "task_at st tid = AwaitRender f q"
  shows "\<exists>extra rest.
           tasks (step (SorterUpdated tid d) st) = (tasks st)[tid := Resolved] @ extra \<and>
           concat (map waits extra) = [] \<and>
           sequenceSplat (step (SorterUpdated tid d) st) = Some q \<and>
           trace (step (SorterUpdated tid d) st) =
             trace st @ [Updated q] @
             (case sequenceSplat st of Some old \<Rightarrow> [Destroy old] | None \<Rightarrow> []) @ rest \<and>
           concat (map destroys rest) = [] \<and> Fire_scene_clear \<notin> set rest"
proof -
  have tid: "tid < length (tasks st)"
    using task_at_await [OF assms] by simp
  let ?dl = "case sequenceSplat st of Some old \<Rightarrow> [Destroy old] | None \<Rightarrow> []"
  let ?st0 = "emit (Updated q) st"
  let ?st1 = "case sequenceSplat ?st0 of Some old \<Rightarrow> emit (Destroy old) ?st0 | None \<Rightarrow> ?st0"
  let ?st2 = "?st1\<lparr>sequenceFrame := f, sequenceSplat := Some q, sequenceLoading := False\<rparr>"
  have st2: "tasks ?st2 = tasks st" "trace ?st2 = trace st @ [Updated q] @ ?dl"
    "sequenceSplat ?st2 = Some q" "nextFrame ?st2 = nextFrame st"
    by (simp_all split: option.splits)
  show ?thesis
  proof (cases "nextFrame st = -1")
    case True
    then have s: "step (SorterUpdated tid d) st = ?st2\<lparr>tasks := (tasks ?st2)[tid := Resolved]\<rparr>"
      using assms st2(4) by (simp add: after_render_def resume_def Let_def)
    show ?thesis
      unfolding s using st2
      by (intro exI [of _ "[]"]) simp
  next
    case False
    let ?st3 = "spawn (nextFrame st) d (?st2\<lparr>nextFrame := -1\<rparr>)"
    from False have s: "step (SorterUpdated tid d) st = ?st3\<lparr>tasks := (tasks ?st3)[tid := Resolved]\<rparr>"
      using assms st2(4) by (simp add: after_render_def resume_def Let_def)
    from spawn_effect [of "nextFrame st" d "?st2\<lparr>nextFrame := -1\<rparr>"]
    obtain t acts where e: "waits t = []"
      "tasks ?st3 = tasks (?st2\<lparr>nextFrame := -1\<rparr>) @ [t]"
      "sequenceSplat ?st3 = sequenceSplat (?st2\<lparr>nextFrame := -1\<rparr>)"
      "trace ?st3 = trace (?st2\<lparr>nextFrame := -1\<rparr>) @ acts"
      "concat (map destroys acts) = []" "Fire_scene_clear \<notin> set acts"
      by (elim exE conjE) (rule that, assumption+)
    have 1: "tasks (?st3\<lparr>tasks := (tasks ?st3)[tid := Resolved]\<rparr>) = (tasks st)[tid := Resolved] @ [t]"
      using e(2) st2(1) tid by (simp add: list_update_append)
    have 2: "sequenceSplat (?st3\<lparr>tasks := (tasks ?st3)[tid := Resolved]\<rparr>) = Some q"
      using e(3) st2(3) by simp
    have 3: "trace (?st3\<lparr>tasks := (tasks ?st3)[tid := Resolved]\<rparr>) = trace st @ [Updated q] @ ?dl @ acts"
      using e(4) st2(2) by simp
    show ?thesis
      unfolding s
      by (intro exI [of _ "[t]"] exI [of _ acts] conjI 1 2 3 e(5) e(6)) (simp add: e(1))
  qed
qed

lemma step_SorterUpdated_owned:
  "unchanged_owned st (step (SorterUpdated tid d) st) \<or>
   (\<exists>A B q. waiting st = A @ [q] @ B \<and> waiting (step (SorterUpdated tid d) st) = A @ B \<and>
      current (step (SorterUpdated tid d) st) = [q] \<and>
      destroyed (step (SorterUpdated tid d) st) = destroyed st @ current st)"
proof (cases "task_at st tid")
  case (AwaitRender f q)
  from task_at_await [OF AwaitRender] have tid: "tid < length (tasks st)" "tasks st ! tid = AwaitRender f q"
    by simp_all
  from step_SorterUpdated_render [OF AwaitRender, of d] obtain extra rest where r:
    "tasks (step (SorterUpdated tid d) st) = (tasks st)[tid := Resolved] @ extra"
    "concat (map waits extra) = []"
    "sequenceSplat (step (SorterUpdated tid d) st) = Some q"
    "trace (step (SorterUpdated tid d) st) =
             trace st @ ([Updated q] @
             (case sequenceSplat st of Some old \<Rightarrow> [Destroy old] | None \<Rightarrow> []) @ rest)"
    "concat (map destroys rest) = []"
    by (elim exE conjE) (rule that, simp_all)
  from waiting_update [OF tid(1)] obtain A B where
    w: "concat (map waits (tasks st)) = A @ waits (tasks st ! tid) @ B"
    "\<forall>t. concat (map waits ((tasks st)[tid := t])) = A @ waits t @ B"
    by (elim exE conjE) (rule that, assumption+)
  have 1: "waiting st = A @ [q] @ B" using w(1) tid(2) by (simp add: waiting_def)
  have 2: "waiting (step (SorterUpdated tid d) st) = A @ B"
    unfolding waiting_def r(1) using w(2) r(2) by simp
  have 3: "current (step (SorterUpdated tid d) st) = [q]"
    unfolding current_def r(3) by simp
  have 4: "destroyed (step (SorterUpdated tid d) st) = destroyed st @ current st"
    unfolding destroyed_append [OF r(4)] using r(5)
    by (simp add: current_def split: option.splits)
  from 1 2 3 4 show ?thesis by blast
qed (simp_all add: unchanged_owned_def)

lemma step_owned:
  "unchanged_owned st (step i st) \<or>
   (\<exists>A B q. import_heads i = [q] \<and> waiting st = A @ B \<and>
      waiting (step i st) = A @ [q] @ B \<and> current (step i st) = current st \<and>
      destroyed (step i st) = destroyed st) \<or>
   (\<exists>A B q. waiting st = A @ [q] @ B \<and> waiting (step i st) = A @ B \<and>
      current (step i st) = [q] \<and> destroyed (step i st) = destroyed st @ current st)"
proof (cases i)
  case (SetFrames fs)
  then show ?thesis using step_SetFrames_owned [of st fs] by blast
next
  case (TimelineFrame f d)
  then show ?thesis using step_TimelineFrame_owned [of st f d] by blast
next
  case (PopupResolves tid a)
  then show ?thesis using step_PopupResolves_owned [of st tid a] by blast
next
  case (ImportResolves tid ns)
  then show ?thesis using step_ImportResolves_owned [of st tid ns] by blast
next
  case (PromiseRejects tid e)
  then show ?thesis using step_PromiseRejects_owned [of st tid e] by blast
next
  case (SorterUpdated tid d)
  then show ?thesis using step_SorterUpdated_owned [of st tid d] by blast
qed

lemma step_fresh_imports:
  assumes "fresh_imports st (import_heads i @ future)"
  shows "fresh_imports (step i st) future"
proof -
  consider (same) "unchanged_owned st (step i st)"
    | (imp) A B q where "import_heads i = [q]" "waiting st = A @ B"
        "waiting (step i st) = A @ [q] @ B" "current (step i st) = current st"
        "destroyed (step i st) = destroyed st"
    | (adopt) A B q where "waiting st = A @ [q] @ B" "waiting (step i st) = A @ B"
        "current (step i st) = [q]" "destroyed (step i st) = destroyed st @ current st"
    using step_owned [of st i] by blast
  then show ?thesis
  proof cases
    case same
    then show ?thesis
      using assms by (auto simp: fresh_imports_def unchanged_owned_def)
  next
    case imp
    then show ?thesis
      using assms by (auto simp: fresh_imports_def)
  next
    case adopt
    then show ?thesis
      using assms by (auto simp: fresh_imports_def)
  qed
qed

lemma run_fresh_imports:
  assumes "fresh_imports st (imported inputs)"
  shows "fresh_imports (run inputs st) []"
  using assms
proof (induction inputs arbitrary: st)
  case Nil
  then show ?case by (simp add: run_Nil imported_def)
next
  case (Cons i inputs)
  then have "fresh_imports st (import_heads i @ imported inputs)"
    by (simp add: imported_def)
  then have "fresh_imports (step i st) (imported inputs)"
    by (rule step_fresh_imports)
  then show ?case
    unfolding run_Cons by (rule Cons.IH)
qed

lemma init_fresh_imports: "distinct future \<Longrightarrow> fresh_imports init future"
  by (simp add: fresh_imports_def waiting_def current_def destroyed_def init_def)

lemma count_destroyed: "count_list (trace st) (Destroy p) = count_list (destroyed st) p"
proof -
  have "count_list xs (Destroy p) = count_list (concat (map destroys xs)) p" for xs
  proof (induction xs)
    case Nil
    then show ?case by simp
  next
    case (Cons a xs)
    then show ?case by (cases a) simp_all
  qed
  then show ?thesis by (simp add: destroyed_def)
qed

lemma distinct_count_le: "distinct xs \<Longrightarrow> count_list xs x \<le> 1"
  by (induction xs) (auto simp: count_list_0_iff)

lemma destroy_once:
  assumes "distinct (imported inputs)"
  shows "count_list (trace (run inputs init)) (Destroy p) \<le> 1"
    and "sequenceSplat (run inputs init) = Some p \<Longrightarrow> Destroy p \<notin> set (trace (run inputs init))"
proof -
  from run_fresh_imports [OF init_fresh_imports [OF assms]]
  have d: "distinct (waiting (run inputs init) @ current (run inputs init) @ destroyed (run inputs init))"
    by (simp add: fresh_imports_def)
  then have "distinct (destroyed (run inputs init))" by simp
  then show "count_list (trace (run inputs init)) (Destroy p) \<le> 1"
    unfolding count_destroyed by (rule distinct_count_le)
  assume "sequenceSplat (run inputs init) = Some p"
  then have "current (run inputs init) = [p]" by (simp add: current_def)
  with d have "p \<notin> set (destroyed (run inputs init))" by auto
  then have "count_list (destroyed (run inputs init)) p = 0" by (simp add: count_list_0_iff)
  then show "Destroy p \<notin> set (trace (run inputs init))"
    using count_destroyed [of "run inputs init" p] by (simp add: count_list_0_iff)
qed

lemma no_destroys_mem: "concat (map destroys acts) = [] \<Longrightarrow> Destroy p \<notin> set acts"
proof (induction acts)
  case Nil
  then show ?case by simp
next
  case (Cons a acts)
  then show ?case by (cases a) auto
qed

lemma step_PopupResolves_trace:
  "(step (PopupResolves tid action) st = st \<or>
    step (PopupResolves tid action) st = st\<lparr>tasks := (tasks st)[tid := Resolved]\<rparr>) \<or>
   (\<exists>f acts. action = ''yes'' \<and> task_at st tid = AwaitPopup f \<and>
      trace (step (PopupResolves tid action) st) = trace st @ [Fire_scene_clear] @ acts \<and>
      concat (map destroys acts) = [] \<and>
      sequenceSplat (step (PopupResolves tid action) st) = None)"
proof (cases "task_at st tid")
  case (AwaitPopup f)
  show ?thesis
  proof (cases "action = ''yes''")
    case False
    with AwaitPopup show ?thesis by (simp add: after_popup_def resume_def)
  next
    case True
    let ?st1 = "(emit Fire_scene_clear st)\<lparr>sequenceSplat := None\<rparr>"
    obtain t st2 where b: "begin_load f ?st1 = (t, st2)" by (cases "begin_load f ?st1")
    from begin_load_effect [OF b] obtain acts where e:
      "sequenceSplat st2 = None"
      "trace st2 = trace st @ [Fire_scene_clear] @ acts" "concat (map destroys acts) = []"
      by (elim exE conjE) (rule that, simp_all)
    have s: "step (PopupResolves tid action) st = st2\<lparr>tasks := (tasks st2)[tid := t]\<rparr>"
      using AwaitPopup True b by (simp add: after_popup_def resume_def)
    have "action = ''yes'' \<and> task_at st tid = AwaitPopup f \<and>
      trace (step (PopupResolves tid action) st) = trace st @ [Fire_scene_clear] @ acts \<and>
      concat (map destroys acts) = [] \<and>
      sequenceSplat (step (PopupResolves tid action) st) = None"
      unfolding s using True AwaitPopup e by simp
    then show ?thesis by blast
  qed
qed simp_all

lemma step_keeps_sequenceSplat:
  "sequenceSplat (step (SetFrames fs) st) = sequenceSplat st"
  "sequenceSplat (step (TimelineFrame f d) st) = sequenceSplat st"
  "sequenceSplat (step (ImportResolves tid ns) st) = sequenceSplat st"
  "sequenceSplat (step (PromiseRejects tid e) st) = sequenceSplat st"
proof -
  show "sequenceSplat (step (SetFrames fs) st) = sequenceSplat st"
    by (simp add: setFrames_def Let_def)
  show "sequenceSplat (step (TimelineFrame f d) st) = sequenceSplat st"
    using spawn_effect [of f d st] by auto
  show "sequenceSplat (step (ImportResolves tid ns) st) = sequenceSplat st"
    by (cases "task_at st tid"; cases ns) (simp_all add: after_import_def resume_def)
  show "sequenceSplat (step (PromiseRejects tid e) st) = sequenceSplat st"
    by (cases "task_at st tid") (simp_all add: resume_def)
qed

lemma step_destroys_current:
  assumes "trace (step i st) = trace st @ acts" and "Destroy p \<in> set acts"
  shows "sequenceSplat st = Some p \<and>
         (\<exists>tid dirty f q rest. i = SorterUpdated tid dirty \<and> task_at st tid = AwaitRender f q \<and>
            acts = Updated q # Destroy p # rest \<and> Destroy p \<notin> set rest \<and>
            sequenceSplat (step i st) = Some q)"
proof -
  have nd: "concat (map destroys acts) \<noteq> []"
    using assms(2) no_destroys_mem by blast
  have changed: "destroyed (step i st) \<noteq> destroyed st"
    using destroyed_append [OF assms(1)] nd by simp
  then have nu: "\<not> unchanged_owned st (step i st)"
    by (simp add: unchanged_owned_def)
  show ?thesis
  proof (cases i)
    case (SetFrames fs)
    with nu step_SetFrames_owned [of st fs] show ?thesis by simp
  next
    case (TimelineFrame f d)
    with nu step_TimelineFrame_owned [of st f d] show ?thesis by simp
  next
    case (PopupResolves tid a)
    with nu step_PopupResolves_owned [of st tid a] show ?thesis by simp
  next
    case (ImportResolves tid ns)
    with nu changed step_ImportResolves_owned [of st tid ns] show ?thesis by auto
  next
    case (PromiseRejects tid e)
    with nu step_PromiseRejects_owned [of st tid e] show ?thesis by simp
  next
    case (SorterUpdated tid d)
    show ?thesis
    proof (cases "task_at st tid")
      case (AwaitRender f q)
      from step_SorterUpdated_render [OF AwaitRender, of d]
      obtain extra :: "task list" and rest where r:
        "sequenceSplat (step (SorterUpdated tid d) st) = Some q"
        "trace (step (SorterUpdated tid d) st) =
             trace st @ [Updated q] @
             (case sequenceSplat st of Some old \<Rightarrow> [Destroy old] | None \<Rightarrow> []) @ rest"
        "concat (map destroys rest) = []"
        by (elim exE conjE) (rule that, assumption+)
      have acts: "acts = [Updated q] @
             (case sequenceSplat st of Some old \<Rightarrow> [Destroy old] | None \<Rightarrow> []) @ rest"
        using assms(1) r(2) SorterUpdated by simp
      have nr: "Destroy p \<notin> set rest"
        using r(3) by (rule no_destroys_mem)
      show ?thesis
      proof (cases "sequenceSplat st")
        case None
        with acts nr assms(2) show ?thesis by simp
      next
        case (Some old)
        with acts nr assms(2) have "old = p" by simp
        with Some acts nr r(1) SorterUpdated AwaitRender show ?thesis by simp
      qed
    qed (use SorterUpdated assms in simp_all)
  qed
qed

lemma step_drops_current:
  assumes "sequenceSplat st = Some p" and "sequenceSplat (step i st) \<noteq> Some p"
  shows "\<exists>acts. trace (step i st) = trace st @ acts \<and>
           (Destroy p \<in> set acts \<or>
            (Fire_scene_clear \<in> set acts \<and> Destroy p \<notin> set acts \<and>
             sequenceSplat (step i st) = None \<and>
             (\<exists>tid f. i = PopupResolves tid ''yes'' \<and> task_at st tid = AwaitPopup f)))"
proof (cases i)
  case (SetFrames fs)
  with assms step_keeps_sequenceSplat(1) [of fs st] show ?thesis by simp
next
  case (TimelineFrame f d)
  with assms step_keeps_sequenceSplat(2) [of f d st] show ?thesis by simp
next
  case (ImportResolves tid ns)
  with assms step_keeps_sequenceSplat(3) [of tid ns st] show ?thesis by simp
next
  case (PromiseRejects tid e)
  with assms step_keeps_sequenceSplat(4) [of tid e st] show ?thesis by simp
next
  case (PopupResolves tid a)
  from step_PopupResolves_trace [of tid a st]
  consider (same) "sequenceSplat (step (PopupResolves tid a) st) = sequenceSplat st"
    | (reset) f acts where "a = ''yes''" "task_at st tid = AwaitPopup f"
      "trace (step (PopupResolves tid a) st) = trace st @ [Fire_scene_clear] @ acts"
      "concat (map destroys acts) = []"
      "sequenceSplat (step (PopupResolves tid a) st) = None"
    by (elim disjE exE conjE) simp_all
  then show ?thesis
  proof cases
    case same
    with assms PopupResolves show ?thesis by simp
  next
    case reset
    have "Destroy p \<notin> set ([Fire_scene_clear] @ acts)"
      using no_destroys_mem [OF reset(4)] by simp
    with reset PopupResolves show ?thesis
      by (intro exI [of _ "[Fire_scene_clear] @ acts"]) simp
  qed
next
  case (SorterUpdated tid d)
  show ?thesis
  proof (cases "task_at st tid")
    case (AwaitRender f q)
    from step_SorterUpdated_render [OF AwaitRender, of d]
    obtain extra :: "task list" and rest where r:
      "trace (step (SorterUpdated tid d) st) =
             trace st @ [Updated q] @
             (case sequenceSplat st of Some old \<Rightarrow> [Destroy old] | None \<Rightarrow> []) @ rest"
      by (elim exE conjE) (rule that, assumption+)
    show ?thesis
      using r assms(1) SorterUpdated
      by (intro exI [of _ "[Updated q] @ [Destroy p] @ rest"]) simp
  qed (use SorterUpdated assms in simp_all)
qed

text \<open>
  Claim C5, as amended.  The controller has one slot for the current splat.  It destroys
  a splat only in the step in which the first render of a new splat is signalled: the
  destroyed splat is the one that was current, the destroy comes right after the signal,
  it happens once in that step, and the new splat is current afterwards.  A splat stops
  being current either in this way, or because the user has confirmed a scene reset: then
  \<^verbatim>\<open>scene.clear\<close> is fired, the slot is emptied and the controller destroys nothing.
  When every import hands over a new splat, no splat is destroyed twice in any run from
  the initial state, and the current splat is not a destroyed one.
\<close>

theorem current_splat_replacement:
  "(\<forall>acts. trace (step i st) = trace st @ acts \<and> Destroy p \<in> set acts \<longrightarrow>
      sequenceSplat st = Some p \<and>
      (\<exists>tid dirty f q rest. i = SorterUpdated tid dirty \<and> task_at st tid = AwaitRender f q \<and>
         acts = Updated q # Destroy p # rest \<and> Destroy p \<notin> set rest \<and>
         sequenceSplat (step i st) = Some q)) \<and>
   (sequenceSplat st = Some p \<and> sequenceSplat (step i st) \<noteq> Some p \<longrightarrow>
      (\<exists>acts. trace (step i st) = trace st @ acts \<and>
         (Destroy p \<in> set acts \<or>
          (Fire_scene_clear \<in> set acts \<and> Destroy p \<notin> set acts \<and>
           sequenceSplat (step i st) = None \<and>
           (\<exists>tid f. i = PopupResolves tid ''yes'' \<and> task_at st tid = AwaitPopup f))))) \<and>
   (distinct (imported inputs) \<longrightarrow>
      count_list (trace (run inputs init)) (Destroy p) \<le> 1 \<and>
      (sequenceSplat (run inputs init) = Some p \<longrightarrow>
         Destroy p \<notin> set (trace (run inputs init))))"
proof (intro conjI allI impI)
  fix acts
  assume "trace (step i st) = trace st @ acts \<and> Destroy p \<in> set acts"
  then have h: "trace (step i st) = trace st @ acts" "Destroy p \<in> set acts"
    by simp_all
  from step_destroys_current [OF h]
  show "sequenceSplat st = Some p"
    and "\<exists>tid dirty f q rest. i = SorterUpdated tid dirty \<and> task_at st tid = AwaitRender f q \<and>
         acts = Updated q # Destroy p # rest \<and> Destroy p \<notin> set rest \<and>
         sequenceSplat (step i st) = Some q"
    by (rule conjunct1, rule conjunct2)
next
  assume "sequenceSplat st = Some p \<and> sequenceSplat (step i st) \<noteq> Some p"
  then have h: "sequenceSplat st = Some p" "sequenceSplat (step i st) \<noteq> Some p"
    by simp_all
  show "\<exists>acts. trace (step i st) = trace st @ acts \<and>
         (Destroy p \<in> set acts \<or>
          (Fire_scene_clear \<in> set acts \<and> Destroy p \<notin> set acts \<and>
           sequenceSplat (step i st) = None \<and>
           (\<exists>tid f. i = PopupResolves tid ''yes'' \<and> task_at st tid = AwaitPopup f)))"
    by (rule step_drops_current [OF h])
next
  assume d: "distinct (imported inputs)"
  show "count_list (trace (run inputs init)) (Destroy p) \<le> 1"
    by (rule destroy_once(1) [OF d])
  assume "sequenceSplat (run inputs init) = Some p"
  then show "Destroy p \<notin> set (trace (run inputs init))"
    by (rule destroy_once(2) [OF d])
qed



theorem current_splat_replacement_witness:
  "distinct (imported [SetFrames two_files, TimelineFrame 0 False, ImportResolves 0 [7],
      SorterUpdated 0 False, TimelineFrame 1 False, ImportResolves 1 [8],
      SorterUpdated 1 False]) \<and>
   sequenceSplat (run [TimelineFrame 1 False, ImportResolves 1 [8]] showing_frame0) = Some 7 \<and>
   trace (step (SorterUpdated 1 False)
            (run [TimelineFrame 1 False, ImportResolves 1 [8]] showing_frame0)) =
     trace (run [TimelineFrame 1 False, ImportResolves 1 [8]] showing_frame0) @
       [Updated 8, Destroy 7] \<and>
   sequenceSplat (step (SorterUpdated 1 False)
            (run [TimelineFrame 1 False, ImportResolves 1 [8]] showing_frame0)) = Some 8 \<and>
   count_list (trace (run [SetFrames two_files, TimelineFrame 0 False, ImportResolves 0 [7],
      SorterUpdated 0 False, TimelineFrame 1 False, ImportResolves 1 [8],
      SorterUpdated 1 False] init)) (Destroy 7) \<le> 1"
proof -
  let ?inputs = "[SetFrames two_files, TimelineFrame 0 False, ImportResolves 0 [7],
      SorterUpdated 0 False, TimelineFrame 1 False, ImportResolves 1 [8],
      SorterUpdated 1 False]"
  let ?st = "run [TimelineFrame 1 False, ImportResolves 1 [8]] showing_frame0"
  have d: "distinct (imported ?inputs)"
    by code_simp
  have t: "trace (step (SorterUpdated 1 False) ?st) = trace ?st @ [Updated 8, Destroy 7]"
    by code_simp
  have m: "Destroy 7 \<in> set [Updated 8, Destroy 7]"
    by simp
  note repl = current_splat_replacement [of "SorterUpdated 1 False" ?st 7 ?inputs]
  from repl [THEN conjunct1, rule_format, of "[Updated 8, Destroy 7]"] t m
  have a: "sequenceSplat ?st = Some 7"
    by blast
  have b: "sequenceSplat (step (SorterUpdated 1 False) ?st) = Some 8"
    by code_simp
  from repl [THEN conjunct2, THEN conjunct2] d
  have c: "count_list (trace (run ?inputs init)) (Destroy 7) \<le> 1"
    by blast
  show ?thesis
    by (intro conjI d a t b c)
qed

text \<open>
  Claim C5 as stated fails on a confirmed scene reset: splat 7 was current, splat 8 is
  current at the end, and the controller has never destroyed splat 7; the scene was
  cleared before splat 8 was even imported.
\<close>

theorem scene_reset_drops_current_counterexample:
  "sequenceSplat showing_frame0 = Some 7 \<and>
   sequenceSplat (run [TimelineFrame 1 True, PopupResolves 1 ''yes'', ImportResolves 1 [8],
                       SorterUpdated 1 False] showing_frame0) = Some 8 \<and>
   trace (run [TimelineFrame 1 True, PopupResolves 1 ''yes'', ImportResolves 1 [8],
               SorterUpdated 1 False] showing_frame0) =
     [Fire_timeline_frames 2, Import 0 (File ''a0.ply'' 0), OnUpdated 7, Updated 7,
      ShowPopup reset_popup, Fire_scene_clear, Import 1 (File ''a1.ply'' 1), OnUpdated 8,
      Updated 8] \<and>
   count_list (trace (run [TimelineFrame 1 True, PopupResolves 1 ''yes'', ImportResolves 1 [8],
               SorterUpdated 1 False] showing_frame0)) (Destroy 7) = 0"
  by code_simp

end
